theory Spec2Isabelle
  imports Main "HOL-Library.AList"
begin

section \<open>Strings as the parser and the lookup use them\<close>

text \<open>
  A string is a list of code units; the model covers the strings whose code units are
  below 256, so a \<^typ>\<open>char\<close> stands for the code unit with the same number.
  \<open>is_white\<close> is the white space of \<open>trim\<close> and of the pattern class
  \<open>\s\<close> in that range, \<open>toLowerCase\<close> the platform's lower-casing there.
\<close>

definition is_white :: "char \<Rightarrow> bool" where
  "is_white c = (of_char c \<in> {9, 10, 11, 12, 13, 32, 160 :: nat})"

definition is_digit :: "char \<Rightarrow> bool" where
  "is_digit c = (48 \<le> (of_char c :: nat) \<and> (of_char c :: nat) \<le> 57)"

definition is_upper_or_digit :: "char \<Rightarrow> bool" where
  "is_upper_or_digit c =
     ((65 \<le> (of_char c :: nat) \<and> (of_char c :: nat) \<le> 90) \<or> is_digit c)"

definition trim :: "string \<Rightarrow> string" where
  "trim s = rev (dropWhile is_white (rev (dropWhile is_white s)))"

definition lower_char :: "char \<Rightarrow> char" where
  "lower_char c =
     (let n = (of_char c :: nat)
      in if (65 \<le> n \<and> n \<le> 90) \<or> (192 \<le> n \<and> n \<le> 222 \<and> n \<noteq> 215)
         then char_of (n + 32) else c)"

definition toLowerCase :: "string \<Rightarrow> string" where
  "toLowerCase s = map lower_char s"

fun startsWith :: "string \<Rightarrow> string \<Rightarrow> bool" where
  "startsWith s [] = True"
| "startsWith [] (p # ps) = False"
| "startsWith (c # cs) (p # ps) = (c = p \<and> startsWith cs ps)"

fun includesStr :: "string \<Rightarrow> string \<Rightarrow> bool" where
  "includesStr [] p = (p = [])"
| "includesStr (c # cs) p = (startsWith (c # cs) p \<or> includesStr cs p)"

text \<open>\<open>text.split('\n')\<close>: the pieces between line feeds, at least one piece.\<close>

fun split_lines :: "string \<Rightarrow> string list" where
  "split_lines [] = [[]]"
| "split_lines (c # cs) =
     (if c = CHR 0x0A then [] # split_lines cs
      else (case split_lines cs of [] \<Rightarrow> [[c]] | l # ls \<Rightarrow> (c # l) # ls))"

text \<open>Decimal digits of a number, as a template literal prints it.\<close>

function show_nat :: "nat \<Rightarrow> string" where
  "show_nat n =
     (if n < 10 then [char_of (48 + n)]
      else show_nat (n div 10) @ [char_of (48 + n mod 10)])"
  by pat_completeness auto
termination
  by (relation "measure id") auto

declare show_nat.simps [simp del]

section \<open>Errors\<close>

text \<open>
  \<open>ApiError message status endpoint\<close> is the class of \<open>apiHelpers.ts\<close>;
  \<open>PlainError\<close> is \<open>new Error(message)\<close>; \<open>PlatformError\<close> is an
  error object raised by the platform (\<open>fetch\<close>, \<open>JSON.parse\<close>,
  \<open>sessionStorage.setItem\<close>, a property read on \<open>null\<close>).
\<close>

datatype js_error =
    ApiError string "nat option" "string option"
  | PlainError string
  | PlatformError string

section \<open>The TTL cache over the session store\<close>

text \<open>
  A JavaScript value that may be \<open>null\<close> or \<open>undefined\<close>.
\<close>

datatype 'v js = Null | Undefined | Val 'v

text \<open>
  The object \<open>{value, _timestamp, _ttl}\<close> as \<open>JSON.parse\<close> gives it back:
  a property that \<open>JSON.stringify\<close> left out (it was \<open>undefined\<close>) is
  absent. Times are whole milliseconds. An absent \<open>_ttl\<close> also stands for a
  \<open>_ttl\<close> of \<open>null\<close>, which is as falsy.
\<close>

record 'v envelope =
  env_value :: "'v js"
  env_timestamp :: "int option"
  env_ttl :: "int option"

text \<open>
  What the store holds under a key, by what \<open>JSON.parse\<close> makes of the text:
  the empty text, a text that is no JSON, the JSON \<open>null\<close>, or an object. An
  object's \<open>_timestamp\<close> and \<open>_ttl\<close>, when present, are numbers; a JSON
  number, string, boolean or array reads as an object with none of the three properties.
\<close>

datatype 'v item = EmptyText | NotJson | JsonNull | JsonObj "'v envelope"

type_synonym 'v storage = "string \<rightharpoonup> 'v item"

datatype 'v parsed = PNull | PObj "'v envelope"

definition JSON_parse :: "'v item \<Rightarrow> js_error + 'v parsed" where
  "JSON_parse it =
     (case it of
        EmptyText \<Rightarrow> Inl (PlatformError ''SyntaxError'')
      | NotJson \<Rightarrow> Inl (PlatformError ''SyntaxError'')
      | JsonNull \<Rightarrow> Inr PNull
      | JsonObj d \<Rightarrow> Inr (PObj d))"

text \<open>\<open>data._ttl || Infinity\<close>, and \<open>age > ttl\<close> against it.\<close>

datatype ttl = Finite int | Infinity

definition ttl_or_infinity :: "int option \<Rightarrow> ttl" where
  "ttl_or_infinity t =
     (case t of None \<Rightarrow> Infinity | Some n \<Rightarrow> if n \<noteq> 0 then Finite n else Infinity)"

fun exceeds :: "int \<Rightarrow> ttl \<Rightarrow> bool" where
  "exceeds age Infinity = False"
| "exceeds age (Finite n) = (age > n)"

text \<open>
  The body of the \<open>try\<close> of \<open>getCachedData\<close>: \<open>Inl\<close> is a throw,
  \<open>Inr\<close> the value returned and the store it leaves. \<open>now\<close> is the reading
  of \<open>Date.now()\<close>.
\<close>

definition getCachedData_try ::
  "'v storage \<Rightarrow> string \<Rightarrow> int \<Rightarrow> js_error + ('v js \<times> 'v storage)" where
  "getCachedData_try store key now =
     (case store key of
        None \<Rightarrow> Inr (Null, store)
      | Some EmptyText \<Rightarrow> Inr (Null, store)
      | Some cached \<Rightarrow>
          (case JSON_parse cached of
             Inl e \<Rightarrow> Inl e
           | Inr PNull \<Rightarrow> Inl (PlatformError ''TypeError'')
           | Inr (PObj data) \<Rightarrow>
               (case env_timestamp data of
                  None \<Rightarrow> Inr (env_value data, store)
                | Some ts \<Rightarrow>
                    if ts \<noteq> 0 then
                      (let age = now - ts; ttl = ttl_or_infinity (env_ttl data)
                       in if exceeds age ttl then Inr (Null, store(key := None))
                          else Inr (env_value data, store))
                    else Inr (env_value data, store))))"

definition getCachedData :: "'v storage \<Rightarrow> string \<Rightarrow> int \<Rightarrow> 'v js \<times> 'v storage" where
  "getCachedData store key now =
     (case getCachedData_try store key now of
        Inl error \<Rightarrow> (Null, store)
      | Inr r \<Rightarrow> r)"

text \<open>
  \<open>sessionStorage.setItem\<close> (with the \<open>JSON.stringify\<close> before it) throws
  when the platform refuses the write; \<open>writable\<close> says whether it accepts.
\<close>

definition setItem ::
  "'v storage \<Rightarrow> string \<Rightarrow> 'v item \<Rightarrow> bool \<Rightarrow> js_error + 'v storage" where
  "setItem store key it writable =
     (if writable then Inr (store(key \<mapsto> it)) else Inl (PlatformError ''QuotaExceededError''))"

definition setCachedData ::
  "'v storage \<Rightarrow> string \<Rightarrow> 'v js \<Rightarrow> int option \<Rightarrow> int \<Rightarrow> bool \<Rightarrow> 'v storage" where
  "setCachedData store key v ttl_opt now writable =
     (let data = \<lparr>env_value = v, env_timestamp = Some now, env_ttl = ttl_opt\<rparr>
      in case setItem store key (JsonObj data) writable of
           Inl error \<Rightarrow> store
         | Inr store' \<Rightarrow> store')"

section \<open>Retrying fetch\<close>

record response =
  status :: nat
  statusText :: string
  body :: "js_error + string"

text \<open>\<open>response.ok\<close>: the status is in the range 200 to 299.\<close>

definition ok :: "response \<Rightarrow> bool" where
  "ok r = (200 \<le> status r \<and> status r \<le> 299)"

text \<open>
  What one call of \<open>fetchWithTimeout\<close> comes to: a response, or a throw. The thrown
  value is an error object or, in the \<open>catch\<close> of \<open>fetchWithRetry\<close>, is turned
  into one.
\<close>

datatype thrown = ErrorObject js_error | OtherValue string

datatype outcome = Responds response | Throws thrown

definition as_error :: "thrown \<Rightarrow> js_error" where
  "as_error t = (case t of ErrorObject e \<Rightarrow> e | OtherValue s \<Rightarrow> PlainError s)"

datatype io = Attempt nat | Sleep nat

definition RETRY_DELAY_MS :: nat where
  "RETRY_DELAY_MS = 1000"

definition DEFAULT_RETRY_ATTEMPTS :: int where
  "DEFAULT_RETRY_ATTEMPTS = 3"

text \<open>
  The \<open>for\<close> loop of \<open>fetchWithRetry\<close>. \<open>env k\<close> is what the call of
  \<open>fetchWithTimeout\<close> in attempt \<open>k\<close> comes to; the trace records each call
  and each \<open>setTimeout\<close> delay, in order.
\<close>

function retry_loop ::
  "(nat \<Rightarrow> outcome) \<Rightarrow> string \<Rightarrow> int \<Rightarrow> nat \<Rightarrow> js_error option \<Rightarrow> io list
     \<Rightarrow> (js_error + response) \<times> io list" where
  "retry_loop env url maxRetries attempt lastError tr =
     (if int attempt < maxRetries then
        (let tr1 = tr @ [Attempt attempt];
             tr2 = (if int attempt < maxRetries - 1
                    then tr1 @ [Sleep (RETRY_DELAY_MS * 2 ^ attempt)] else tr1)
         in case env attempt of
              Responds r \<Rightarrow>
                if ok r \<or> (status r \<ge> 400 \<and> status r < 500) then (Inr r, tr1)
                else retry_loop env url maxRetries (attempt + 1)
                       (Some (ApiError (''HTTP '' @ show_nat (status r) @ '': '' @ statusText r)
                                (Some (status r)) (Some url))) tr2
            | Throws error \<Rightarrow>
                retry_loop env url maxRetries (attempt + 1) (Some (as_error error)) tr2)
      else
        (case lastError of
           Some e \<Rightarrow> (Inl e, tr)
         | None \<Rightarrow> (Inl (ApiError ''Unknown error'' None (Some url)), tr)))"
  by pat_completeness auto
termination
  by (relation "measure (\<lambda>(env, url, maxRetries, attempt, lastError, tr). nat (maxRetries - int attempt))")
     auto

declare retry_loop.simps [simp del]

definition fetchWithRetry ::
  "(nat \<Rightarrow> outcome) \<Rightarrow> string \<Rightarrow> int \<Rightarrow> (js_error + response) \<times> io list" where
  "fetchWithRetry env url maxRetries = retry_loop env url maxRetries 0 None []"

section \<open>The parser of the species list\<close>

text \<open>
  The pattern \<open>/^[A-Z0-9]{5}\s+[VEBAO]\s+\d+:/\<close>: five capitals or digits at the
  start of the line, white space, one kind letter, white space, digits, a colon. Each
  class excludes what follows it, so the greedy runs are the longest ones.
\<close>

definition header_match :: "string \<Rightarrow> bool" where
  "header_match line =
     (length line \<ge> 5 \<and> list_all is_upper_or_digit (take 5 line) \<and>
      (let r1 = drop 5 line; r2 = dropWhile is_white r1
       in r2 \<noteq> r1 \<and> r2 \<noteq> [] \<and> hd r2 \<in> set ''VEBAO'' \<and>
          (let r3 = tl r2; r4 = dropWhile is_white r3; r5 = dropWhile is_digit r4
           in r4 \<noteq> r3 \<and> r5 \<noteq> r4 \<and> r5 \<noteq> [] \<and> hd r5 = CHR '':'')))"

text \<open>
  The pattern \<open>/N=([^()]+?)(?:\s*\([^)]*\))?$/\<close>. \<open>tail_match r\<close>: the rest
  \<open>r\<close> of the line after the group is empty, or is white space and one
  parenthesised run up to the end of the line. \<open>name_group\<close> is the lazy group:
  the shortest run of one or more characters other than parentheses after which the
  rest matches. \<open>n_match\<close> searches the line from the left, as \<open>match\<close> does,
  and gives the group of the first position that matches.
\<close>

definition tail_match :: "string \<Rightarrow> bool" where
  "tail_match r =
     (r = [] \<or>
      (let r1 = dropWhile is_white r
       in r1 \<noteq> [] \<and> hd r1 = CHR ''('' \<and>
          dropWhile (\<lambda>c. c \<noteq> CHR '')'') (tl r1) = [CHR '')'']))"

fun name_group :: "string \<Rightarrow> string \<Rightarrow> string option" where
  "name_group acc [] = None"
| "name_group acc (c # cs) =
     (if c = CHR ''('' \<or> c = CHR '')'' then None
      else if tail_match cs then Some (acc @ [c])
      else name_group (acc @ [c]) cs)"

fun n_match :: "string \<Rightarrow> string option" where
  "n_match [] = None"
| "n_match (c # cs) =
     (if startsWith (c # cs) ''N='' then
        (case name_group [] (drop 2 (c # cs)) of
           Some g \<Rightarrow> Some g
         | None \<Rightarrow> n_match cs)
      else n_match cs)"

text \<open>
  The parser's variables. \<open>speciesMap\<close> is the \<open>Map\<close> in insertion order:
  \<open>set\<close> replaces the value of a key in place or appends a new key, which is
  \<^const>\<open>AList.update\<close>.
\<close>

type_synonym species_map = "(string \<times> string) list"

record parser_state =
  speciesMap :: species_map
  currentScientificName :: string
  inDataSection :: bool

definition parse_N :: "parser_state \<Rightarrow> string \<Rightarrow> parser_state" where
  "parse_N st line =
     (if header_match line \<and> includesStr line ''N='' then
        (case n_match line of
           Some g \<Rightarrow> st\<lparr>currentScientificName := trim g\<rparr>
         | None \<Rightarrow> st)
      else st)"

definition parse_C :: "parser_state \<Rightarrow> string \<Rightarrow> parser_state" where
  "parse_C st trimmedLine =
     (if startsWith trimmedLine ''C='' \<and> currentScientificName st \<noteq> [] then
        (let commonName = trim (drop 2 trimmedLine)
         in if commonName \<noteq> []
            then st\<lparr>speciesMap := AList.update (currentScientificName st) commonName (speciesMap st)\<rparr>
            else st)
      else st)"

definition parse_S :: "parser_state \<Rightarrow> string \<Rightarrow> parser_state" where
  "parse_S st trimmedLine =
     (if startsWith trimmedLine ''S='' \<and> currentScientificName st \<noteq> [] then
        (if map_of (speciesMap st) (currentScientificName st) = None
         then st\<lparr>currentScientificName := []\<rparr>
         else st)
      else st)"

text \<open>The three \<open>if\<close> blocks at the end of the loop body, in their order.\<close>

definition parse_record_line :: "parser_state \<Rightarrow> string \<Rightarrow> parser_state" where
  "parse_record_line st line =
     (let trimmedLine = trim line
      in parse_S (parse_C (parse_N st line) trimmedLine) trimmedLine)"

text \<open>
  The loop over the lines: \<open>continue\<close> goes on with the next line, \<open>break\<close>
  ends the loop with the map built so far.
\<close>

fun parse_lines :: "parser_state \<Rightarrow> string list \<Rightarrow> species_map" where
  "parse_lines st [] = speciesMap st"
| "parse_lines st (line # rest) =
     (if includesStr line ''(1) Real organism codes''
        then parse_lines (st\<lparr>inDataSection := True\<rparr>) rest
      else if includesStr line ''(2) Virtual codes'' then speciesMap st
      else if \<not> inDataSection st then parse_lines st rest
      else if startsWith line ''_____'' \<or> startsWith line ''==='' then parse_lines st rest
      else if trim line = [] then parse_lines st rest
      else parse_lines (parse_record_line st line) rest)"

definition parseUniProtSpecList :: "string \<Rightarrow> species_map" where
  "parseUniProtSpecList text =
     parse_lines \<lparr>speciesMap = [], currentScientificName = [], inDataSection = False\<rparr>
       (split_lines text)"

section \<open>Loading the species list\<close>

definition UNIPROT_CACHE_TTL :: int where
  "UNIPROT_CACHE_TTL = 500 * 60 * 60 * 1000"

text \<open>
  A value that \<open>JSON.parse\<close> gives, other than \<open>null\<close>; a \<open>null\<close> inside
  an array or an object is \<^term>\<open>Null\<close>. Numbers are whole. The fields of an
  object are its own properties, each key once. This is what the session store may hold
  as the \<open>value\<close> of an entry: \<open>getCachedData\<close> returns it unchecked.
\<close>

datatype jvalue =
    JBool bool
  | JNum int
  | JStr string
  | JArr "jvalue js list"
  | JObj "(string \<times> jvalue js) list"

text \<open>\<open>if (cached)\<close>: the truthiness of what \<open>getCachedData\<close> returned.\<close>

fun truthy :: "jvalue js \<Rightarrow> bool" where
  "truthy Null = False"
| "truthy Undefined = False"
| "truthy (Val (JBool b)) = b"
| "truthy (Val (JNum n)) = (n \<noteq> 0)"
| "truthy (Val (JStr s)) = (s \<noteq> [])"
| "truthy (Val (JArr xs)) = True"
| "truthy (Val (JObj fs)) = True"

text \<open>
  A \<open>Map\<close> whose keys and values are any values, in insertion order. Keys are
  compared as \<open>Map\<close> compares them: \<open>null\<close>, \<open>undefined\<close>, booleans,
  numbers and strings by value; an array or an object is equal to itself only, and the
  arrays and objects of one parsed text are all different.
\<close>

type_synonym js_map = "(jvalue js \<times> jvalue js) list"

fun same_key :: "jvalue js \<Rightarrow> jvalue js \<Rightarrow> bool" where
  "same_key (Val (JArr xs)) k = False"
| "same_key (Val (JObj fs)) k = False"
| "same_key k k' = (k = k')"

fun map_set :: "jvalue js \<Rightarrow> jvalue js \<Rightarrow> js_map \<Rightarrow> js_map" where
  "map_set k v [] = [(k, v)]"
| "map_set k v (e # es) = (if same_key k (fst e) then (k, v) # es else e # map_set k v es)"

text \<open>
  \<open>new Map(iterable)\<close>. Each item of the iterable must be an object (an array is
  one); its properties \<open>0\<close> and \<open>1\<close> are the key and the value, \<open>undefined\<close>
  when it has none. \<open>null\<close> and \<open>undefined\<close> give the empty map; a boolean, a
  number and a plain object are not iterable; the items of a string are strings, which
  are no objects. \<open>Inl\<close> is the \<open>TypeError\<close> thrown.
\<close>

definition item_at :: "jvalue js list \<Rightarrow> nat \<Rightarrow> jvalue js" where
  "item_at xs i = (if i < length xs then xs ! i else Undefined)"

definition property :: "(string \<times> jvalue js) list \<Rightarrow> string \<Rightarrow> jvalue js" where
  "property fs name = (case map_of fs name of None \<Rightarrow> Undefined | Some v \<Rightarrow> v)"

fun add_entries :: "js_map \<Rightarrow> jvalue js list \<Rightarrow> js_error + js_map" where
  "add_entries m [] = Inr m"
| "add_entries m (Val (JArr xs) # items) =
     add_entries (map_set (item_at xs 0) (item_at xs 1) m) items"
| "add_entries m (Val (JObj fs) # items) =
     add_entries (map_set (property fs ''0'') (property fs ''1'') m) items"
| "add_entries m (item # items) = Inl (PlatformError ''TypeError'')"

fun new_Map :: "jvalue js \<Rightarrow> js_error + js_map" where
  "new_Map Null = Inr []"
| "new_Map Undefined = Inr []"
| "new_Map (Val (JArr items)) = add_entries [] items"
| "new_Map (Val (JStr s)) = (if s = [] then Inr [] else Inl (PlatformError ''TypeError''))"
| "new_Map (Val v) = Inl (PlatformError ''TypeError'')"

text \<open>
  A map of the parser as a map of values, and \<open>[...speciesMap.entries()]\<close>, the
  array of its pairs that is cached.
\<close>

definition as_js_map :: "species_map \<Rightarrow> js_map" where
  "as_js_map m = map (\<lambda>(k, v). (Val (JStr k), Val (JStr v))) m"

definition entries :: "species_map \<Rightarrow> jvalue" where
  "entries m = JArr (map (\<lambda>(k, v). Val (JArr [Val (JStr k), Val (JStr v)])) m)"

text \<open>
  The body of the \<open>try\<close> of \<open>loadUniProtSpeciesList\<close>. \<open>fetched\<close> is
  what the call of \<open>fetchWithTimeout\<close> comes to, \<open>body\<close> of the response what
  \<open>response.text()\<close> comes to, \<open>now\<close> the clock when the result is cached.
  \<open>Inl\<close> is a throw inside the \<open>try\<close>.
\<close>

definition loadUniProtSpeciesList_try ::
  "jvalue storage \<Rightarrow> int \<Rightarrow> outcome \<Rightarrow> bool
     \<Rightarrow> thrown + (species_map \<times> jvalue storage)" where
  "loadUniProtSpeciesList_try store now fetched writable =
     (case fetched of
        Throws error \<Rightarrow> Inl error
      | Responds r \<Rightarrow>
          if \<not> ok r then
            Inl (ErrorObject (PlainError (''Failed to fetch UniProt species list: '' @
                   show_nat (status r) @ '' '' @ statusText r)))
          else
            (case body r of
               Inl e \<Rightarrow> Inl (ErrorObject e)
             | Inr text \<Rightarrow>
                 if text = [] \<or> length text < 1000 then
                   Inl (ErrorObject (PlainError ''UniProt species list appears to be empty or corrupt''))
                 else
                   (let speciesMap = parseUniProtSpecList text
                    in if length speciesMap = 0 then
                         Inl (ErrorObject (PlainError ''Failed to parse UniProt species list''))
                       else
                         Inr (speciesMap,
                              setCachedData store ''uniprot_species_list'' (Val (entries speciesMap))
                                (Some UNIPROT_CACHE_TTL) now writable))))"

text \<open>
  The whole function: \<open>Inl\<close> is a rejection of the promise it returns. \<open>now0\<close>
  is the clock when the cache is read. The read of the cache and \<open>new Map(cached)\<close>
  come before the \<open>try\<close>: what \<open>new Map\<close> throws is not caught.
\<close>

definition loadUniProtSpeciesList ::
  "jvalue storage \<Rightarrow> int \<Rightarrow> int \<Rightarrow> outcome \<Rightarrow> bool
     \<Rightarrow> (js_error + js_map) \<times> jvalue storage" where
  "loadUniProtSpeciesList store now0 now fetched writable =
     (case getCachedData store ''uniprot_species_list'' now0 of
        (cached, store1) \<Rightarrow>
          if truthy cached then
            (case new_Map cached of
               Inl error \<Rightarrow> (Inl error, store1)
             | Inr m \<Rightarrow> (Inr m, store1))
          else
            (case loadUniProtSpeciesList_try store1 now fetched writable of
               Inl error \<Rightarrow> (Inr [], store1)
             | Inr (loaded, store2) \<Rightarrow> (Inr (as_js_map loaded), store2)))"

section \<open>Looking names up\<close>

text \<open>
  \<open>a || b\<close> on the results of \<open>Map.get\<close>: \<open>None\<close> is
  \<open>undefined\<close>, and the empty string is falsy too.
\<close>

definition or_js :: "string option \<Rightarrow> string option \<Rightarrow> string option" where
  "or_js a b = (case a of Some (c # cs) \<Rightarrow> a | _ \<Rightarrow> b)"

definition lookup_name :: "species_map \<Rightarrow> string \<Rightarrow> string" where
  "lookup_name cache scientificName =
     (case or_js (or_js (map_of cache scientificName) (map_of cache (toLowerCase scientificName)))
             (Some [])
      of Some s \<Rightarrow> s | None \<Rightarrow> [])"

definition lookup_names :: "species_map \<Rightarrow> string list \<Rightarrow> species_map" where
  "lookup_names cache scientificNames =
     foldl (\<lambda>results name.
              let commonName = lookup_name cache name
              in if commonName \<noteq> [] then AList.update name commonName results else results)
       [] scientificNames"

section \<open>The module state and its callers\<close>

text \<open>
  The three exported functions are asynchronous: a call runs up to its \<open>await\<close>,
  is suspended there, and is resumed after the promise it awaits is settled. Between two
  suspension points nothing else runs. A state holds the two module variables, the
  promises that calls of \<open>loadUniProtSpeciesList\<close> returned (one entry per call of
  the loader) and the calls made so far. A promise is pending, fulfilled with a map, or
  rejected with an error. \<open>Awaiting c p clears\<close> is a call suspended on promise
  \<open>p\<close>; \<open>clears\<close> says that its continuation sets \<open>cachePromise\<close> to
  \<open>null\<close>. \<open>Returned\<close> is a call whose promise was fulfilled with a result,
  \<open>Threw\<close> one whose promise was rejected. The maps are written at the type the
  module declares for them, \<open>Map<string, string>\<close>.
\<close>

datatype call = GetCommonName string | GetCommonNames "string list" | PreloadUniProtData

datatype result = RString string | RMap species_map | RVoid

datatype promise = Pending | Fulfilled species_map | Rejected js_error

datatype task = Awaiting call nat bool | Returned call result | Threw call js_error

record module_state =
  speciesCache :: "species_map option"
  cachePromise :: "nat option"
  promises :: "promise list"
  tasks :: "task list"

definition initial :: module_state where
  "initial = \<lparr>speciesCache = None, cachePromise = None, promises = [], tasks = []\<rparr>"

text \<open>What a call returns once \<open>speciesCache\<close> is the map \<open>m\<close>.\<close>

fun answer :: "call \<Rightarrow> species_map \<Rightarrow> result" where
  "answer (GetCommonName scientificName) m = RString (lookup_name m scientificName)"
| "answer (GetCommonNames scientificNames) m = RMap (lookup_names m scientificNames)"
| "answer PreloadUniProtData m = RVoid"

text \<open>
  \<open>cachePromise = loadUniProtSpeciesList()\<close> followed by the \<open>await\<close>: the
  loader is called, its promise is stored, the caller is suspended on it.
\<close>

definition start_loading :: "module_state \<Rightarrow> call \<Rightarrow> module_state" where
  "start_loading s c =
     (let p = length (promises s)
      in s\<lparr>cachePromise := Some p, promises := promises s @ [Pending],
            tasks := tasks s @ [Awaiting c p True]\<rparr>)"

definition getCommonName :: "module_state \<Rightarrow> string \<Rightarrow> module_state" where
  "getCommonName s scientificName =
     (case speciesCache s of
        Some m \<Rightarrow>
          s\<lparr>tasks := tasks s @
              [Returned (GetCommonName scientificName) (RString (lookup_name m scientificName))]\<rparr>
      | None \<Rightarrow>
          (case cachePromise s of
             Some p \<Rightarrow> s\<lparr>tasks := tasks s @ [Awaiting (GetCommonName scientificName) p False]\<rparr>
           | None \<Rightarrow> start_loading s (GetCommonName scientificName)))"

definition preloadUniProtData :: "module_state \<Rightarrow> module_state" where
  "preloadUniProtData s =
     (if speciesCache s = None \<and> cachePromise s = None
      then start_loading s PreloadUniProtData
      else s\<lparr>tasks := tasks s @ [Returned PreloadUniProtData RVoid]\<rparr>)"

definition getCommonNames :: "module_state \<Rightarrow> string list \<Rightarrow> module_state" where
  "getCommonNames s scientificNames =
     (case speciesCache s of
        None \<Rightarrow>
          (case cachePromise s of
             Some p \<Rightarrow> s\<lparr>tasks := tasks s @ [Awaiting (GetCommonNames scientificNames) p False]\<rparr>
           | None \<Rightarrow> start_loading s (GetCommonNames scientificNames))
      | Some m \<Rightarrow>
          s\<lparr>tasks := tasks s @
              [Returned (GetCommonNames scientificNames) (RMap (lookup_names m scientificNames))]\<rparr>)"

text \<open>
  The continuation of the suspended call \<open>i\<close>, once its promise is settled. When
  the promise holds a map: \<open>speciesCache = await cachePromise\<close>, then
  \<open>cachePromise = null\<close> where the source has it, then the rest of the function.
  When the promise was rejected, the \<open>await\<close> throws: nothing is assigned,
  \<open>cachePromise\<close> is not reset, and the call's own promise is rejected with the same
  error.
\<close>

definition resume :: "module_state \<Rightarrow> nat \<Rightarrow> module_state" where
  "resume s i =
     (if i < length (tasks s) then
        (case tasks s ! i of
           Returned c r \<Rightarrow> s
         | Threw c e \<Rightarrow> s
         | Awaiting c p clears \<Rightarrow>
             if p < length (promises s) then
               (case promises s ! p of
                  Pending \<Rightarrow> s
                | Fulfilled m \<Rightarrow>
                    s\<lparr>speciesCache := Some m,
                      cachePromise := (if clears then None else cachePromise s),
                      tasks := (tasks s)[i := Returned c (answer c m)]\<rparr>
                | Rejected e \<Rightarrow> s\<lparr>tasks := (tasks s)[i := Threw c e]\<rparr>)
             else s)
      else s)"

text \<open>
  The loader's promise \<open>p\<close> is settled, once: fulfilled with the map \<open>m\<close>, or
  rejected with the error \<open>e\<close>.
\<close>

definition settle :: "module_state \<Rightarrow> nat \<Rightarrow> species_map \<Rightarrow> module_state" where
  "settle s p m =
     (if p < length (promises s) \<and> promises s ! p = Pending
      then s\<lparr>promises := (promises s)[p := Fulfilled m]\<rparr>
      else s)"

definition reject :: "module_state \<Rightarrow> nat \<Rightarrow> js_error \<Rightarrow> module_state" where
  "reject s p e =
     (if p < length (promises s) \<and> promises s ! p = Pending
      then s\<lparr>promises := (promises s)[p := Rejected e]\<rparr>
      else s)"

datatype event = Invoke call | Settle nat species_map | Reject nat js_error | Resume nat

fun step :: "module_state \<Rightarrow> event \<Rightarrow> module_state" where
  "step s (Invoke (GetCommonName scientificName)) = getCommonName s scientificName"
| "step s (Invoke (GetCommonNames scientificNames)) = getCommonNames s scientificNames"
| "step s (Invoke PreloadUniProtData) = preloadUniProtData s"
| "step s (Settle p m) = settle s p m"
| "step s (Reject p e) = reject s p e"
| "step s (Resume i) = resume s i"

definition run :: "module_state \<Rightarrow> event list \<Rightarrow> module_state" where
  "run s evs = foldl step s evs"

text \<open>The calls made in a run, in order, and the call a task stands for.\<close>

fun calls :: "event list \<Rightarrow> call list" where
  "calls [] = []"
| "calls (Invoke c # evs) = c # calls evs"
| "calls (Settle p m # evs) = calls evs"
| "calls (Reject p e # evs) = calls evs"
| "calls (Resume i # evs) = calls evs"

fun call_of :: "task \<Rightarrow> call" where
  "call_of (Awaiting c p clears) = c"
| "call_of (Returned c r) = c"
| "call_of (Threw c e) = c"

text \<open>
  What the invariant asks of one task, given the promises: a suspended call awaits the
  first promise; a call that returned a value computed it from the map the promise
  holds (a preload returns nothing); a call that threw threw the promise's error.
\<close>

fun task_ok :: "promise list \<Rightarrow> task \<Rightarrow> bool" where
  "task_ok ps (Awaiting c p clears) = (p = 0)"
| "task_ok ps (Returned c r) =
     ((c = PreloadUniProtData \<and> r = RVoid) \<or> (\<exists>m. ps = [Fulfilled m] \<and> r = answer c m))"
| "task_ok ps (Threw c e) = (ps = [Rejected e])"

text \<open>
  The invariant of the module state: at most one promise was ever made by the loader;
  before it is made nothing is cached or awaited; after it is made the module holds
  either the promise or the map it was fulfilled with; a suspended call awaits that
  promise; a call that returned a value computed it from that map; a call that threw
  threw the error the promise was rejected with.
\<close>

definition coherent :: "module_state \<Rightarrow> bool" where
  "coherent s =
     (length (promises s) \<le> 1 \<and>
      (promises s = [] \<longrightarrow> speciesCache s = None \<and> cachePromise s = None \<and> tasks s = []) \<and>
      (promises s \<noteq> [] \<longrightarrow> speciesCache s \<noteq> None \<or> cachePromise s = Some 0) \<and>
      (cachePromise s = None \<or> cachePromise s = Some 0) \<and>
      (\<forall>m. speciesCache s = Some m \<longrightarrow> promises s = [Fulfilled m]) \<and>
      (\<forall>c p b. Awaiting c p b \<in> set (tasks s) \<longrightarrow> p = 0) \<and>
      (\<forall>c r. Returned c r \<in> set (tasks s) \<longrightarrow>
         (c = PreloadUniProtData \<and> r = RVoid) \<or>
         (\<exists>m. promises s = [Fulfilled m] \<and> r = answer c m)) \<and>
      (\<forall>c e. Threw c e \<in> set (tasks s) \<longrightarrow> promises s = [Rejected e]))"

section \<open>Properties of the TTL cache\<close>

lemma getCachedData_after_write:
  "getCachedData (setCachedData store key v ttl_opt t0 True) key now =
     (if t0 \<noteq> 0 \<and> exceeds (now - t0) (ttl_or_infinity ttl_opt)
      then (Null, (setCachedData store key v ttl_opt t0 True)(key := None))
      else (v, setCachedData store key v ttl_opt t0 True))"
  by (simp add: getCachedData_def getCachedData_try_def setCachedData_def setItem_def
      JSON_parse_def Let_def)

lemma getCachedData_unreadable:
  "store key = None \<or> store key = Some EmptyText \<or> store key = Some NotJson \<or>
     store key = Some JsonNull \<Longrightarrow>
   getCachedData store key now = (Null, store)"
  by (auto simp: getCachedData_def getCachedData_try_def JSON_parse_def)

text \<open>
  C4, as amended. Take an entry written by \<open>setCachedData(key, v, {ttl})\<close> with a
  \<open>ttl\<close> other than zero, at a clock reading \<open>t0\<close> other than zero. Reading it at
  \<open>now\<close> gives the stored value and leaves the store alone when
  \<open>now - t0 \<le> ttl\<close>; it gives \<open>null\<close> and removes the entry when
  \<open>now - t0 > ttl\<close>. An entry written with no \<open>ttl\<close> is given back at every
  \<open>now\<close>. A key that is missing, or whose text is empty, is no JSON or is the JSON
  \<open>null\<close>, gives \<open>null\<close> with the store unchanged: the throw inside the
  \<open>try\<close> is caught.
\<close>

theorem getCachedData_nonzero_ttl:
  assumes "ttl \<noteq> 0" and "t0 \<noteq> 0"
  shows "(now - t0 \<le> ttl \<longrightarrow>
            getCachedData (setCachedData store key v (Some ttl) t0 True) key now =
              (v, setCachedData store key v (Some ttl) t0 True))
       \<and> (now - t0 > ttl \<longrightarrow>
            getCachedData (setCachedData store key v (Some ttl) t0 True) key now =
              (Null, (setCachedData store key v (Some ttl) t0 True)(key := None)))
       \<and> getCachedData (setCachedData store key v None t0 True) key now =
              (v, setCachedData store key v None t0 True)
       \<and> (store key = None \<or> store key = Some EmptyText \<or> store key = Some NotJson \<or>
              store key = Some JsonNull \<longrightarrow>
            getCachedData store key now = (Null, store))"
  using assms getCachedData_unreadable[of store key now]
  by (simp add: getCachedData_after_write ttl_or_infinity_def)

theorem getCachedData_nonzero_ttl_witness:
  "getCachedData (setCachedData Map.empty ''k'' (Val ''v'') (Some 100) 1000 True) ''k'' 1100 =
     (Val ''v'', setCachedData Map.empty ''k'' (Val ''v'') (Some 100) 1000 True)
   \<and> getCachedData (setCachedData Map.empty ''k'' (Val ''v'') (Some 100) 1000 True) ''k'' 1101 =
     (Null, (setCachedData Map.empty ''k'' (Val ''v'') (Some 100) 1000 True)(''k'' := None))
   \<and> getCachedData (Map.empty :: string storage) ''k'' 1101 = (Null, Map.empty)"
  using getCachedData_nonzero_ttl[of 100 1000 1100 Map.empty "''k''" "Val ''v''"]
    getCachedData_nonzero_ttl[of 100 1000 1101 Map.empty "''k''" "Val ''v''"]
  by simp

text \<open>
  C4 as stated fails for a \<open>ttl\<close> of zero: written at 1000 and read at 1001, the
  entry is older than its \<open>ttl\<close>, and the read still gives the value and keeps the
  entry. It fails as well for an entry written at the clock reading zero: with a
  \<open>ttl\<close> of 100 and read at 1000, the entry is given back, since the zero
  \<open>_timestamp\<close> is falsy and the expiry is not checked.
\<close>

theorem getCachedData_zero_ttl_counterexample:
  "(1001 :: int) - 1000 > 0
   \<and> fst (getCachedData (setCachedData Map.empty ''k'' (Val ''v'') (Some 0) 1000 True) ''k'' 1001)
       = Val ''v''
   \<and> snd (getCachedData (setCachedData Map.empty ''k'' (Val ''v'') (Some 0) 1000 True) ''k'' 1001)
       ''k'' \<noteq> None
   \<and> (1000 :: int) - 0 > 100
   \<and> fst (getCachedData (setCachedData Map.empty ''k'' (Val ''v'') (Some 100) 0 True) ''k'' 1000)
       = Val ''v''"
  by (simp add: getCachedData_after_write ttl_or_infinity_def)
     (simp add: setCachedData_def setItem_def)

text \<open>
  C10. An entry written with a \<open>ttl\<close> of zero, or with none, is given back by every
  later read, whatever the clock says, and stays in the store: the falsy \<open>_ttl\<close> is
  read as \<open>Infinity\<close>.
\<close>

theorem falsy_ttl_never_expires:
  "getCachedData (setCachedData store key v (Some 0) t0 True) key now =
     (v, setCachedData store key v (Some 0) t0 True)
   \<and> getCachedData (setCachedData store key v None t0 True) key now =
     (v, setCachedData store key v None t0 True)"
  by (simp add: getCachedData_after_write ttl_or_infinity_def)

section \<open>Properties of the retrying fetch\<close>

lemma show_nat_503: "show_nat 503 = ''503''"
  by code_simp

lemma retry_loop_accept:
  assumes "int a < n" and "env a = Responds r"
    and "ok r \<or> (400 \<le> status r \<and> status r < 500)"
  shows "retry_loop env url n a le tr = (Inr r, tr @ [Attempt a])"
  using assms by (subst retry_loop.simps) (simp add: Let_def)

lemma retry_loop_done:
  assumes "\<not> int a < n"
  shows "retry_loop env url n a le tr =
     (Inl (case le of Some e \<Rightarrow> e | None \<Rightarrow> ApiError ''Unknown error'' None (Some url)), tr)"
  using assms by (subst retry_loop.simps) (simp split: option.splits)

lemma retry_loop_response:
  assumes "int a < n" and "env a = Responds r"
    and "\<not> (ok r \<or> (400 \<le> status r \<and> status r < 500))"
  shows "retry_loop env url n a le tr =
     retry_loop env url n (Suc a)
       (Some (ApiError (''HTTP '' @ show_nat (status r) @ '': '' @ statusText r)
                (Some (status r)) (Some url)))
       (if int a < n - 1 then (tr @ [Attempt a]) @ [Sleep (RETRY_DELAY_MS * 2 ^ a)]
        else tr @ [Attempt a])"
  using assms by (subst retry_loop.simps) (auto simp: Let_def)

lemma retry_loop_throw:
  assumes "int a < n" and "env a = Throws e"
  shows "retry_loop env url n a le tr =
     retry_loop env url n (Suc a) (Some (as_error e))
       (if int a < n - 1 then (tr @ [Attempt a]) @ [Sleep (RETRY_DELAY_MS * 2 ^ a)]
        else tr @ [Attempt a])"
  using assms by (subst retry_loop.simps) (auto simp: Let_def)

text \<open>
  An attempt in the trace of the loop is one made before the loop started, or every
  attempt from the loop's start up to it was retried: it threw, or its response was
  neither successful nor a client error.
\<close>

lemma retry_loop_attempts:
  "Attempt b \<in> set (snd (retry_loop env url n a le tr)) \<Longrightarrow>
   Attempt b \<in> set tr \<or>
     (a \<le> b \<and> int b < n \<and>
      (\<forall>k. a \<le> k \<and> k < b \<longrightarrow>
         (\<exists>e. env k = Throws e) \<or>
         (\<exists>r. env k = Responds r \<and> \<not> (ok r \<or> (400 \<le> status r \<and> status r < 500)))))"
proof (induction env url n a le tr rule: retry_loop.induct)
  case (1 env url n a le tr)
  let ?retried = "\<lambda>k. (\<exists>e. env k = Throws e) \<or>
         (\<exists>r. env k = Responds r \<and> \<not> (ok r \<or> (400 \<le> status r \<and> status r < 500)))"
  let ?tr2 = "if int a < n - 1 then (tr @ [Attempt a]) @ [Sleep (RETRY_DELAY_MS * 2 ^ a)]
              else tr @ [Attempt a]"
  show ?case
  proof (cases "int a < n")
    case False
    with "1.prems" show ?thesis by (simp add: retry_loop_done)
  next
    case inrange: True
    have later: ?thesis
      if here: "?retried a"
        and rest: "Attempt b \<in> set ?tr2 \<or>
          (a + 1 \<le> b \<and> int b < n \<and> (\<forall>k. a + 1 \<le> k \<and> k < b \<longrightarrow> ?retried k))"
      using rest
    proof
      assume "Attempt b \<in> set ?tr2"
      then have "Attempt b \<in> set tr \<or> b = a" by (auto split: if_splits)
      with inrange show ?thesis by auto
    next
      assume after: "a + 1 \<le> b \<and> int b < n \<and> (\<forall>k. a + 1 \<le> k \<and> k < b \<longrightarrow> ?retried k)"
      have "?retried k" if "a \<le> k" "k < b" for k
      proof (cases "k = a")
        case True
        with here show ?thesis by simp
      next
        case False
        with that after show ?thesis by simp
      qed
      with after show ?thesis by simp
    qed
    show ?thesis
    proof (cases "env a")
      case (Responds r)
      show ?thesis
      proof (cases "ok r \<or> (400 \<le> status r \<and> status r < 500)")
        case True
        with inrange Responds "1.prems" show ?thesis
          by (auto simp: retry_loop_accept)
      next
        case False
        have "Attempt b \<in> set ?tr2 \<or>
          (a + 1 \<le> b \<and> int b < n \<and> (\<forall>k. a + 1 \<le> k \<and> k < b \<longrightarrow> ?retried k))"
          using "1.IH"(1)[OF inrange refl refl Responds False] "1.prems"
            retry_loop_response[where env=env and a=a, OF inrange Responds False] by simp
        moreover have "?retried a" using Responds False by simp
        ultimately show ?thesis by (rule later[rotated])
      qed
    next
      case (Throws e)
      have "Attempt b \<in> set ?tr2 \<or>
          (a + 1 \<le> b \<and> int b < n \<and> (\<forall>k. a + 1 \<le> k \<and> k < b \<longrightarrow> ?retried k))"
        using "1.IH"(2)[OF inrange refl refl Throws] "1.prems"
          retry_loop_throw[where env=env and a=a, OF inrange Throws] by simp
      moreover have "?retried a" using Throws by simp
      ultimately show ?thesis by (rule later[rotated])
    qed
  qed
qed

text \<open>
  When the loop reaches an attempt whose response is successful or a client error, that
  response is the result and that attempt ends the trace.
\<close>

lemma retry_loop_accepted_attempt:
  "Attempt b \<in> set (snd (retry_loop env url n a le tr)) \<Longrightarrow> Attempt b \<notin> set tr \<Longrightarrow>
   env b = Responds r \<Longrightarrow> ok r \<or> (400 \<le> status r \<and> status r < 500) \<Longrightarrow>
   fst (retry_loop env url n a le tr) = Inr r \<and>
   last (snd (retry_loop env url n a le tr)) = Attempt b"
proof (induction env url n a le tr rule: retry_loop.induct)
  case (1 env url n a le tr)
  let ?tr2 = "if int a < n - 1 then (tr @ [Attempt a]) @ [Sleep (RETRY_DELAY_MS * 2 ^ a)]
              else tr @ [Attempt a]"
  have inrange: "int a < n"
    using "1.prems"(1,2) by (cases "int a < n") (simp_all add: retry_loop_done)
  show ?case
  proof (cases "b = a")
    case True
    with inrange "1.prems" show ?thesis by (simp add: retry_loop_accept)
  next
    case differs: False
    then have fresh: "Attempt b \<notin> set ?tr2" using "1.prems"(2) by simp
    show ?thesis
    proof (cases "env a")
      case (Responds r')
      show ?thesis
      proof (cases "ok r' \<or> (400 \<le> status r' \<and> status r' < 500)")
        case True
        with inrange Responds "1.prems"(1,2) differs show ?thesis
          by (simp add: retry_loop_accept)
      next
        case False
        show ?thesis
          using "1.IH"(1)[OF inrange refl refl Responds False _ fresh "1.prems"(3,4)] "1.prems"(1)
            retry_loop_response[where env=env and a=a, OF inrange Responds False] by simp
      qed
    next
      case (Throws e)
      show ?thesis
        using "1.IH"(2)[OF inrange refl refl Throws _ fresh "1.prems"(3,4)] "1.prems"(1)
          retry_loop_throw[where env=env and a=a, OF inrange Throws] by simp
    qed
  qed
qed

lemma fetchWithRetry_three_rejections:
  assumes "\<And>k. env k = Responds (rs k)"
    and "\<And>k. \<not> (ok (rs k) \<or> (400 \<le> status (rs k) \<and> status (rs k) < 500))"
  shows "fetchWithRetry env url 3 =
       (Inl (ApiError (''HTTP '' @ show_nat (status (rs 2)) @ '': '' @ statusText (rs 2))
               (Some (status (rs 2))) (Some url)),
        [Attempt 0, Sleep 1000, Attempt 1, Sleep 2000, Attempt 2])"
proof -
  let ?err = "\<lambda>k. Some (ApiError (''HTTP '' @ show_nat (status (rs k)) @ '': '' @ statusText (rs k))
               (Some (status (rs k))) (Some url))"
  have "retry_loop env url 3 0 None [] =
      retry_loop env url 3 (Suc 0) (?err 0) [Attempt 0, Sleep 1000]"
    using retry_loop_response[where env=env and a=0 and n=3 and url=url, OF _ assms]
    by (simp add: RETRY_DELAY_MS_def)
  also have "\<dots> = retry_loop env url 3 (Suc (Suc 0)) (?err (Suc 0))
      [Attempt 0, Sleep 1000, Attempt (Suc 0), Sleep 2000]"
    using retry_loop_response[where env=env and a="Suc 0" and n=3 and url=url, OF _ assms]
    by (simp add: RETRY_DELAY_MS_def)
  also have "\<dots> = retry_loop env url 3 (Suc (Suc (Suc 0))) (?err (Suc (Suc 0)))
      [Attempt 0, Sleep 1000, Attempt (Suc 0), Sleep 2000, Attempt (Suc (Suc 0))]"
    using retry_loop_response[where env=env and a="Suc (Suc 0)" and n=3 and url=url, OF _ assms]
    by (simp add: RETRY_DELAY_MS_def)
  also have "\<dots> = (Inl (ApiError (''HTTP '' @ show_nat (status (rs 2)) @ '': '' @ statusText (rs 2))
               (Some (status (rs 2))) (Some url)),
      [Attempt 0, Sleep 1000, Attempt 1, Sleep 2000, Attempt 2])"
    by (simp add: retry_loop_done numeral_2_eq_2)
  finally show ?thesis by (simp add: fetchWithRetry_def)
qed

text \<open>
  C2. With three allowed attempts and an endpoint whose every response has status 503,
  \<open>fetchWithRetry\<close> makes the attempts 0, 1 and 2 in order, waits
  \<open>RETRY_DELAY_MS * 2 ^ 0 = 1000\<close> ms after the first and
  \<open>RETRY_DELAY_MS * 2 ^ 1 = 2000\<close> ms after the second, does not wait after the
  third, and throws the \<open>ApiError\<close> made from the third response, which carries
  the status 503.
\<close>

theorem fetchWithRetry_always_503:
  assumes "\<And>k. env k = Responds (rs k)" and "\<And>k. status (rs k) = 503"
  shows "fetchWithRetry env url 3 =
       (Inl (ApiError (''HTTP 503: '' @ statusText (rs 2)) (Some 503) (Some url)),
        [Attempt 0, Sleep (RETRY_DELAY_MS * 2 ^ 0), Attempt 1, Sleep (RETRY_DELAY_MS * 2 ^ 1), Attempt 2])
     \<and> RETRY_DELAY_MS * 2 ^ 0 = 1000 \<and> RETRY_DELAY_MS * 2 ^ 1 = 2000"
proof -
  have "\<not> (ok (rs k) \<or> (400 \<le> status (rs k) \<and> status (rs k) < 500))" for k
    using assms(2)[of k] by (simp add: ok_def)
  from fetchWithRetry_three_rejections[of env rs url, OF assms(1) this]
  show ?thesis by (simp add: assms(2) show_nat_503 RETRY_DELAY_MS_def)
qed

theorem fetchWithRetry_always_503_witness:
  "fetchWithRetry (\<lambda>k. Responds \<lparr>status = 503, statusText = ''Service Unavailable'', body = Inr []\<rparr>) ''u'' 3 =
       (Inl (ApiError ''HTTP 503: Service Unavailable'' (Some 503) (Some ''u'')),
        [Attempt 0, Sleep 1000, Attempt 1, Sleep 2000, Attempt 2])"
proof -
  let ?r = "\<lparr>status = 503, statusText = ''Service Unavailable'', body = Inr []\<rparr>"
  have responds: "(\<lambda>k::nat. Responds ?r) k = Responds ((\<lambda>k. ?r) k)" for k
    by simp
  have unavailable: "status ((\<lambda>k::nat. ?r) k) = 503" for k
    by simp
  from fetchWithRetry_always_503[of "\<lambda>k. Responds ?r" "\<lambda>k. ?r" "''u''", OF responds unavailable]
  show ?thesis by simp
qed

text \<open>
  Which responses end the loop. An attempt that \<open>fetchWithRetry\<close> makes and whose
  response is successful or has a status from 400 to 499 makes that response the result,
  as it is: nothing is thrown, the attempt is the last entry of the trace (no delay
  follows it), and no later attempt is made. An attempt is followed by another one only
  if it threw or its response was neither successful nor of a status from 400 to 499.
\<close>

theorem fetchWithRetry_accepts_2xx_4xx:
  "(\<forall>a r. Attempt a \<in> set (snd (fetchWithRetry env url n)) \<and> env a = Responds r \<and>
           (ok r \<or> (400 \<le> status r \<and> status r < 500)) \<longrightarrow>
           fst (fetchWithRetry env url n) = Inr r \<and>
           last (snd (fetchWithRetry env url n)) = Attempt a \<and>
           (\<forall>c. a < c \<longrightarrow> Attempt c \<notin> set (snd (fetchWithRetry env url n))))
   \<and> (\<forall>a. Attempt (Suc a) \<in> set (snd (fetchWithRetry env url n)) \<longrightarrow>
           (\<exists>e. env a = Throws e) \<or>
           (\<exists>r. env a = Responds r \<and> \<not> (ok r \<or> (400 \<le> status r \<and> status r < 500))))"
proof (intro conjI allI impI)
  fix a r
  assume h: "Attempt a \<in> set (snd (fetchWithRetry env url n)) \<and> env a = Responds r \<and>
           (ok r \<or> (400 \<le> status r \<and> status r < 500))"
  then show "fst (fetchWithRetry env url n) = Inr r"
    and "last (snd (fetchWithRetry env url n)) = Attempt a"
    using retry_loop_accepted_attempt[of a env url n 0 None "[]" r]
    by (simp_all add: fetchWithRetry_def)
  fix c assume "a < c"
  show "Attempt c \<notin> set (snd (fetchWithRetry env url n))"
  proof
    assume "Attempt c \<in> set (snd (fetchWithRetry env url n))"
    from retry_loop_attempts[OF this[unfolded fetchWithRetry_def]] \<open>a < c\<close> h
    show False by auto
  qed
next
  fix a
  assume "Attempt (Suc a) \<in> set (snd (fetchWithRetry env url n))"
  from retry_loop_attempts[OF this[unfolded fetchWithRetry_def]]
  show "(\<exists>e. env a = Throws e) \<or>
           (\<exists>r. env a = Responds r \<and> \<not> (ok r \<or> (400 \<le> status r \<and> status r < 500)))"
    by auto
qed

theorem fetchWithRetry_accepts_2xx_4xx_witness:
  "Attempt 0 \<in> set (snd (fetchWithRetry (\<lambda>k. Responds \<lparr>status = 404, statusText = ''Not Found'', body = Inr []\<rparr>) ''u'' 3))
   \<and> fst (fetchWithRetry (\<lambda>k. Responds \<lparr>status = 404, statusText = ''Not Found'', body = Inr []\<rparr>) ''u'' 3)
       = Inr \<lparr>status = 404, statusText = ''Not Found'', body = Inr []\<rparr>
   \<and> last (snd (fetchWithRetry (\<lambda>k. Responds \<lparr>status = 404, statusText = ''Not Found'', body = Inr []\<rparr>) ''u'' 3))
       = Attempt 0
   \<and> Attempt 1 \<notin> set (snd (fetchWithRetry (\<lambda>k. Responds \<lparr>status = 404, statusText = ''Not Found'', body = Inr []\<rparr>) ''u'' 3))
   \<and> Attempt (Suc 0) \<in> set (snd (fetchWithRetry (\<lambda>k. Responds \<lparr>status = 500, statusText = ''Internal Server Error'', body = Inr []\<rparr>) ''u'' 3))
   \<and> ((\<exists>e. (\<lambda>k::nat. Responds \<lparr>status = 500, statusText = ''Internal Server Error'', body = Inr []\<rparr>) 0 = Throws e) \<or>
       (\<exists>r. (\<lambda>k::nat. Responds \<lparr>status = 500, statusText = ''Internal Server Error'', body = Inr []\<rparr>) 0 = Responds r \<and>
            \<not> (ok r \<or> (400 \<le> status r \<and> status r < 500))))"
proof -
  let ?r = "\<lparr>status = 404, statusText = ''Not Found'', body = Inr []\<rparr>"
  let ?env = "\<lambda>k::nat. Responds ?r"
  let ?r' = "\<lparr>status = 500, statusText = ''Internal Server Error'', body = Inr []\<rparr>"
  let ?env' = "\<lambda>k::nat. Responds ?r'"
  have accepted: "ok ?r \<or> (400 \<le> status ?r \<and> status ?r < 500)"
    by simp
  have reached: "Attempt 0 \<in> set (snd (fetchWithRetry ?env ''u'' 3))"
    using retry_loop_accept[where env="?env" and a=0 and n=3 and r="?r" and url="''u''"
        and le=None and tr="[]", OF _ refl accepted]
    by (simp add: fetchWithRetry_def)
  have pre: "Attempt 0 \<in> set (snd (fetchWithRetry ?env ''u'' 3)) \<and> ?env 0 = Responds ?r \<and>
      (ok ?r \<or> (400 \<le> status ?r \<and> status ?r < 500))"
    using reached accepted by (intro conjI refl) assumption+
  note concl = fetchWithRetry_accepts_2xx_4xx[of ?env "''u''" 3, THEN conjunct1, rule_format,
      of 0 ?r, OF pre]
  have none_after: "Attempt 1 \<notin> set (snd (fetchWithRetry ?env ''u'' 3))"
    using concl[THEN conjunct2, THEN conjunct2, rule_format, of 1] by simp
  have responds: "?env' k = Responds ((\<lambda>k::nat. ?r') k)" for k
    by simp
  have rejected: "\<not> (ok ((\<lambda>k::nat. ?r') k) \<or>
      (400 \<le> status ((\<lambda>k::nat. ?r') k) \<and> status ((\<lambda>k::nat. ?r') k) < 500))" for k
    by (simp add: ok_def)
  have retried: "Attempt (Suc 0) \<in> set (snd (fetchWithRetry ?env' ''u'' 3))"
    using fetchWithRetry_three_rejections[of ?env' "\<lambda>k. ?r'" "''u''", OF responds rejected]
    by simp
  note why = fetchWithRetry_accepts_2xx_4xx[of ?env' "''u''" 3, THEN conjunct2, rule_format,
      of 0, OF retried]
  show ?thesis
    using reached concl[THEN conjunct1] concl[THEN conjunct2, THEN conjunct1] none_after
      retried why
    by (intro conjI) assumption+
qed

text \<open>
  C3. The retry at a failing input: every response of the endpoint has status 304, which
  is below 500, and no attempt throws. The comment on the test in the loop says to retry
  \<open>only server errors (5xx) and network issues\<close>; the test itself accepts a
  response only if it is successful or its status is from 400 to 499. So the 304 is
  retried: the call makes three attempts, waits 1000 and 2000 ms between them, and
  throws an \<open>ApiError\<close> for the last 304.
\<close>

theorem fetchWithRetry_retries_304:
  "fetchWithRetry (\<lambda>k. Responds \<lparr>status = 304, statusText = ''Not Modified'', body = Inr []\<rparr>) ''u'' 3
     = (Inl (ApiError ''HTTP 304: Not Modified'' (Some 304) (Some ''u'')),
        [Attempt 0, Sleep 1000, Attempt 1, Sleep 2000, Attempt 2])
   \<and> \<not> (500 \<le> status \<lparr>status = 304, statusText = ''Not Modified'', body = Inr []\<rparr>)"
proof -
  let ?r = "\<lparr>status = 304, statusText = ''Not Modified'', body = Inr []\<rparr>"
  have responds: "(\<lambda>k::nat. Responds ?r) k = Responds ((\<lambda>k. ?r) k)" for k
    by simp
  have rejected: "\<not> (ok ((\<lambda>k::nat. ?r) k) \<or>
      (400 \<le> status ((\<lambda>k::nat. ?r) k) \<and> status ((\<lambda>k::nat. ?r) k) < 500))" for k
    by (simp add: ok_def)
  have "show_nat 304 = ''304''"
    by code_simp
  with fetchWithRetry_three_rejections[of "\<lambda>k. Responds ?r" "\<lambda>k. ?r" "''u''", OF responds rejected]
  show ?thesis by simp
qed

section \<open>Properties of the parser\<close>

lemma split_lines_nonempty: "split_lines s \<noteq> []"
  by (induction s) (auto split: list.splits)

lemma split_lines_append:
  "split_lines (a @ CHR 0x0A # b) = split_lines a @ split_lines b"
  by (induction a) (auto split: list.splits simp: split_lines_nonempty)

lemma parse_lines_outside_data:
  "\<not> inDataSection st \<Longrightarrow> \<forall>l\<in>set pre. \<not> includesStr l ''(1) Real organism codes'' \<Longrightarrow>
   parse_lines st (pre @ rest) =
     (if \<exists>l\<in>set pre. includesStr l ''(2) Virtual codes'' then speciesMap st
      else parse_lines st rest)"
  by (induction pre) auto

lemma parse_lines_stops:
  "includesStr v ''(2) Virtual codes'' \<Longrightarrow> \<not> includesStr v ''(1) Real organism codes'' \<Longrightarrow>
   parse_lines st (mid @ v # post) = parse_lines st mid"
  by (induction mid arbitrary: st) auto

text \<open>
  C5. The parser at two failing inputs. In both the record \<open>AAAAA\<close> has an
  \<open>N=\<close> line and no \<open>C=\<close> line, and the map still has an entry for
  \<open>Testus exemplus\<close>, holding the common name of the record after it. In the first
  the next record has a code of four characters, so its first line is not taken for a
  record line; in the second the next record's name has a parenthesis inside, so no
  name is extracted from its first line. Either way the sticky name stays, and the next
  \<open>C=\<close> line is stored under it. The example of the claim itself (an \<open>N=\<close> and
  an \<open>S=\<close> line, no header) gives the empty map.
\<close>

theorem parse_misattributes_common_name:
  "parseUniProtSpecList
     ''(1) Real organism codes\<newline>AAAAA V 000001: N=Testus exemplus\<newline>AAV2  V   10804: N=Adeno-associated virus 2\<newline>                 C=AAV-2\<newline>''
     = [(''Testus exemplus'', ''AAV-2'')]
   \<and> parseUniProtSpecList
     ''(1) Real organism codes\<newline>AAAAA V 000001: N=Testus exemplus\<newline>BBBBB V 000002: N=Alius (x) virus\<newline>                 C=Common alius\<newline>''
     = [(''Testus exemplus'', ''Common alius'')]
   \<and> parseUniProtSpecList ''AAAAA V 000001: N=Testus exemplus\<newline>      S=Testus synonymus\<newline>'' = []"
  by code_simp

text \<open>
  C6, as amended. Let the lines of the input be \<open>pre\<close>, a line \<open>h\<close> that contains
  the real-organism-codes header, \<open>mid\<close>, a line \<open>v\<close> that contains the
  virtual-codes header and not the real-organism-codes header, and \<open>post\<close>, where no
  line of \<open>pre\<close> contains the real-organism-codes header. Then the result is what the
  loop makes of the lines \<open>mid\<close> alone, started inside the data section with an empty
  map, unless a line of \<open>pre\<close> contains the virtual-codes header, and then it is the
  empty map: no line of \<open>pre\<close> and no line of \<open>post\<close> gives an entry. An input
  with no line that contains the real-organism-codes header gives the empty map.
\<close>

theorem parse_section_bound:
  "(\<forall>pre h mid v post.
      split_lines text = pre @ h # mid @ v # post \<and>
      (\<forall>l\<in>set pre. \<not> includesStr l ''(1) Real organism codes'') \<and>
      includesStr h ''(1) Real organism codes'' \<and>
      includesStr v ''(2) Virtual codes'' \<and> \<not> includesStr v ''(1) Real organism codes'' \<longrightarrow>
      parseUniProtSpecList text =
        (if \<exists>l\<in>set pre. includesStr l ''(2) Virtual codes'' then []
         else parse_lines
                \<lparr>speciesMap = [], currentScientificName = [], inDataSection = True\<rparr> mid))
   \<and> ((\<forall>l\<in>set (split_lines text). \<not> includesStr l ''(1) Real organism codes'') \<longrightarrow>
        parseUniProtSpecList text = [])"
proof (intro conjI allI impI)
  fix pre h mid v post
  let ?st = "\<lparr>speciesMap = [], currentScientificName = [], inDataSection = False\<rparr>"
  assume h: "split_lines text = pre @ h # mid @ v # post \<and>
      (\<forall>l\<in>set pre. \<not> includesStr l ''(1) Real organism codes'') \<and>
      includesStr h ''(1) Real organism codes'' \<and>
      includesStr v ''(2) Virtual codes'' \<and> \<not> includesStr v ''(1) Real organism codes''"
  have "parseUniProtSpecList text = parse_lines ?st (pre @ h # mid @ v # post)"
    using h by (simp add: parseUniProtSpecList_def)
  also have "\<dots> = (if \<exists>l\<in>set pre. includesStr l ''(2) Virtual codes'' then []
      else parse_lines ?st (h # mid @ v # post))"
    using parse_lines_outside_data[of ?st pre "h # mid @ v # post"] h by simp
  also have "parse_lines ?st (h # mid @ v # post) =
      parse_lines (?st\<lparr>inDataSection := True\<rparr>) (mid @ v # post)"
    using h by simp
  also have "\<dots> = parse_lines (?st\<lparr>inDataSection := True\<rparr>) mid"
    using h by (simp add: parse_lines_stops)
  finally show "parseUniProtSpecList text =
        (if \<exists>l\<in>set pre. includesStr l ''(2) Virtual codes'' then []
         else parse_lines
                \<lparr>speciesMap = [], currentScientificName = [], inDataSection = True\<rparr> mid)"
    by simp
next
  let ?st = "\<lparr>speciesMap = [], currentScientificName = [], inDataSection = False\<rparr>"
  assume "\<forall>l\<in>set (split_lines text). \<not> includesStr l ''(1) Real organism codes''"
  with parse_lines_outside_data[of ?st "split_lines text" "[]"]
  show "parseUniProtSpecList text = []"
    by (simp add: parseUniProtSpecList_def)
qed

theorem parse_section_bound_witness:
  "split_lines ''Preamble\<newline>(1) Real organism codes\<newline>AAAAA V 000001: N=Testus exemplus\<newline>      C=Tester\<newline>(2) Virtual codes\<newline>BBBBB E 000002: N=Later species\<newline>      C=Late''
     = [''Preamble''] @ ''(1) Real organism codes'' #
       [''AAAAA V 000001: N=Testus exemplus'', ''      C=Tester''] @ ''(2) Virtual codes'' #
       [''BBBBB E 000002: N=Later species'', ''      C=Late'']
   \<and> parseUniProtSpecList ''Preamble\<newline>(1) Real organism codes\<newline>AAAAA V 000001: N=Testus exemplus\<newline>      C=Tester\<newline>(2) Virtual codes\<newline>BBBBB E 000002: N=Later species\<newline>      C=Late''
     = [(''Testus exemplus'', ''Tester'')]
   \<and> parseUniProtSpecList ''AAAAA V 000001: N=Testus exemplus\<newline>      C=Tester'' = []"
proof -
  let ?text = "''Preamble\<newline>(1) Real organism codes\<newline>AAAAA V 000001: N=Testus exemplus\<newline>      C=Tester\<newline>(2) Virtual codes\<newline>BBBBB E 000002: N=Later species\<newline>      C=Late''"
  let ?mid = "[''AAAAA V 000001: N=Testus exemplus'', ''      C=Tester'']"
  have lines: "split_lines ?text
     = [''Preamble''] @ ''(1) Real organism codes'' # ?mid @ ''(2) Virtual codes'' #
       [''BBBBB E 000002: N=Later species'', ''      C=Late'']"
    by code_simp
  have pre: "\<forall>l\<in>set [''Preamble'']. \<not> includesStr l ''(1) Real organism codes''"
    by code_simp
  have hdr: "includesStr ''(1) Real organism codes'' ''(1) Real organism codes''"
    by code_simp
  have virt: "includesStr ''(2) Virtual codes'' ''(2) Virtual codes''"
    by code_simp
  have virt': "\<not> includesStr ''(2) Virtual codes'' ''(1) Real organism codes''"
    by code_simp
  have novirt: "\<not> (\<exists>l\<in>set [''Preamble'']. includesStr l ''(2) Virtual codes'')"
    by code_simp
  have data: "parse_lines \<lparr>speciesMap = [], currentScientificName = [], inDataSection = True\<rparr>
      ?mid = [(''Testus exemplus'', ''Tester'')]"
    by code_simp
  from parse_section_bound[of ?text, THEN conjunct1, rule_format,
      of "[''Preamble'']" "''(1) Real organism codes''" ?mid "''(2) Virtual codes''"
         "[''BBBBB E 000002: N=Later species'', ''      C=Late'']",
      OF conjI[OF lines conjI[OF pre conjI[OF hdr conjI[OF virt virt']]]]]
  have first: "parseUniProtSpecList ?text = [(''Testus exemplus'', ''Tester'')]"
    using novirt data by simp
  have "\<forall>l\<in>set (split_lines ''AAAAA V 000001: N=Testus exemplus\<newline>      C=Tester'').
      \<not> includesStr l ''(1) Real organism codes''"
    by code_simp
  from parse_section_bound[of "''AAAAA V 000001: N=Testus exemplus\<newline>      C=Tester''",
      THEN conjunct2, THEN mp, OF this]
  have second: "parseUniProtSpecList ''AAAAA V 000001: N=Testus exemplus\<newline>      C=Tester'' = []" .
  from lines first second show ?thesis by (intro conjI)
qed

text \<open>
  C6 as stated fails for a line that contains both headers: the line is taken for the
  real-organism-codes header, parsing goes on, and the lines after it give an entry.
\<close>

theorem parse_both_headers_counterexample:
  "includesStr ''(1) Real organism codes (2) Virtual codes'' ''(2) Virtual codes''
   \<and> parseUniProtSpecList
       ''(1) Real organism codes (2) Virtual codes\<newline>AAAAA V 000001: N=Testus exemplus\<newline>      C=Tester''
     = [(''Testus exemplus'', ''Tester'')]"
  by code_simp

section \<open>Properties of the loader\<close>

text \<open>
  Inside the \<open>try\<close>. When the cache gives nothing truthy, the loader returns a map
  whatever happens: if the fetch throws, the response is not successful, reading its
  text throws, the text is shorter than 1000 characters (the empty text too), or the
  parser finds no entry, the map returned is the empty map.
\<close>

lemma load_failures_give_empty_map:
  assumes "\<not> truthy (fst (getCachedData store ''uniprot_species_list'' now0))"
  shows "(\<exists>m. fst (loadUniProtSpeciesList store now0 now fetched writable) = Inr m)
   \<and> ((\<exists>e. fetched = Throws e) \<or>
       (\<exists>r. fetched = Responds r \<and>
            (\<not> ok r \<or> (\<exists>e. body r = Inl e) \<or>
             (\<exists>text. body r = Inr text \<and>
                (length text < 1000 \<or> parseUniProtSpecList text = []))))
      \<longrightarrow> fst (loadUniProtSpeciesList store now0 now fetched writable) = Inr [])"
  using assms
  by (auto simp: loadUniProtSpeciesList_def loadUniProtSpeciesList_try_def Let_def
      split: prod.splits sum.splits outcome.splits)

lemma map_set_fresh:
  "Val (JStr k) \<notin> fst ` set m \<Longrightarrow> map_set (Val (JStr k)) v m = m @ [(Val (JStr k), v)]"
  by (induction m) auto

lemma add_entries_of_species_map:
  "distinct (map fst (acc @ m)) \<Longrightarrow>
   add_entries (as_js_map acc)
     (map (\<lambda>(k, v). Val (JArr [Val (JStr k), Val (JStr v)])) m) = Inr (as_js_map (acc @ m))"
proof (induction m arbitrary: acc)
  case Nil
  show ?case by simp
next
  case (Cons e m)
  obtain k v where e: "e = (k, v)" by (cases e)
  from Cons.prems e have "k \<notin> fst ` set acc"
    by auto
  then have fresh: "Val (JStr k) \<notin> fst ` set (as_js_map acc)"
    by (force simp: as_js_map_def)
  from Cons.prems have "distinct (map fst ((acc @ [e]) @ m))" by simp
  from Cons.IH[OF this] e fresh show ?case
    by (simp add: item_at_def map_set_fresh) (simp add: as_js_map_def)
qed

lemma new_Map_entries:
  "distinct (map fst m) \<Longrightarrow> new_Map (Val (entries m)) = Inr (as_js_map m)"
  using add_entries_of_species_map[of "[]" m] by (simp add: entries_def as_js_map_def)

text \<open>
  C7. The loader at two failing inputs: the session store holds, under the loader's key,
  an entry whose value is the number 5, or an object that is no array.
  \<open>getCachedData\<close> returns the value as it is, the value is truthy, and
  \<open>new Map(cached)\<close>, which stands before the \<open>try\<close>, throws a
  \<open>TypeError\<close>. The comment in the \<open>catch\<close> says
  \<open>Return empty map instead of throwing to allow app to continue\<close>; here the promise
  of the loader is rejected, whatever the clock, the fetch and the store are.
\<close>

theorem loadUniProtSpeciesList_rejects_unchecked_cache:
  "fst (loadUniProtSpeciesList
          [''uniprot_species_list'' \<mapsto>
             JsonObj \<lparr>env_value = Val (JNum 5), env_timestamp = None, env_ttl = None\<rparr>]
          now0 now fetched writable)
     = Inl (PlatformError ''TypeError'')
   \<and> fst (loadUniProtSpeciesList
          [''uniprot_species_list'' \<mapsto>
             JsonObj \<lparr>env_value = Val (JObj [(''a'', Val (JNum 1))]),
                      env_timestamp = Some 1000, env_ttl = None\<rparr>]
          now0 now fetched writable)
     = Inl (PlatformError ''TypeError'')"
  by (simp add: loadUniProtSpeciesList_def getCachedData_def getCachedData_try_def
      JSON_parse_def ttl_or_infinity_def)

text \<open>
  C8. The loader at a successful fetch and parse, with an empty cache: the entry it
  writes has a \<open>_ttl\<close> of \<open>500 * 60 * 60 * 1000\<close> ms, and a read 499 hours
  after the write still gives the cached value.
\<close>

theorem cache_ttl_is_500_hours:
  "snd (loadUniProtSpeciesList Map.empty 5 7
          (Responds \<lparr>status = 200, statusText = ''OK'',
             body = Inr (''(1) Real organism codes\<newline>HUMAN E 9606: N=Homo sapiens\<newline>      C=Human\<newline>(2) Virtual codes\<newline>'' @
                         replicate 1000 (CHR ''-''))\<rparr>) True)
     = [''uniprot_species_list'' \<mapsto>
          JsonObj \<lparr>env_value = Val (entries [(''Homo sapiens'', ''Human'')]), env_timestamp = Some 7,
                   env_ttl = Some (500 * 60 * 60 * 1000)\<rparr>]
   \<and> fst (getCachedData
            [''uniprot_species_list'' \<mapsto>
               JsonObj \<lparr>env_value = Val (entries [(''Homo sapiens'', ''Human'')]), env_timestamp = Some 7,
                        env_ttl = Some (500 * 60 * 60 * 1000)\<rparr>]
            ''uniprot_species_list'' (7 + 499 * 60 * 60 * 1000))
     = Val (entries [(''Homo sapiens'', ''Human'')])"
proof -
  let ?head = "''(1) Real organism codes\<newline>HUMAN E 9606: N=Homo sapiens\<newline>      C=Human\<newline>(2) Virtual codes''"
  let ?pad = "replicate 1000 (CHR ''-'')"
  let ?text = "''(1) Real organism codes\<newline>HUMAN E 9606: N=Homo sapiens\<newline>      C=Human\<newline>(2) Virtual codes\<newline>'' @ ?pad"
  let ?st = "\<lparr>speciesMap = [], currentScientificName = [], inDataSection = False\<rparr>"
  have shape: "?text = ?head @ CHR 0x0A # ?pad"
    by simp
  have head: "split_lines ?head =
      [''(1) Real organism codes'', ''HUMAN E 9606: N=Homo sapiens'', ''      C=Human''] @
      [''(2) Virtual codes'']"
    by code_simp
  obtain l ls where pad: "split_lines ?pad = l # ls"
    using split_lines_nonempty[of ?pad] by (cases "split_lines ?pad") auto
  have virt: "includesStr ''(2) Virtual codes'' ''(2) Virtual codes''"
    "\<not> includesStr ''(2) Virtual codes'' ''(1) Real organism codes''"
    by code_simp+
  have "parseUniProtSpecList ?text =
      parse_lines ?st
        ([''(1) Real organism codes'', ''HUMAN E 9606: N=Homo sapiens'', ''      C=Human''] @
         ''(2) Virtual codes'' # split_lines ?pad)"
    unfolding parseUniProtSpecList_def shape split_lines_append head by simp
  also have "\<dots> = parse_lines ?st
      [''(1) Real organism codes'', ''HUMAN E 9606: N=Homo sapiens'', ''      C=Human'']"
    using virt by (rule parse_lines_stops)
  also have "\<dots> = [(''Homo sapiens'', ''Human'')]"
    by code_simp
  finally have parsed: "parseUniProtSpecList ?text = [(''Homo sapiens'', ''Human'')]" .
  have long: "\<not> length ?text < 1000"
    by simp
  have miss: "getCachedData (Map.empty :: jvalue storage) ''uniprot_species_list'' 5 =
      (Null, Map.empty)"
    by (simp add: getCachedData_unreadable)
  have loaded: "snd (loadUniProtSpeciesList Map.empty 5 7
          (Responds \<lparr>status = 200, statusText = ''OK'', body = Inr ?text\<rparr>) True)
     = [''uniprot_species_list'' \<mapsto>
          JsonObj \<lparr>env_value = Val (entries [(''Homo sapiens'', ''Human'')]), env_timestamp = Some 7,
                   env_ttl = Some (500 * 60 * 60 * 1000)\<rparr>]"
    unfolding loadUniProtSpeciesList_def loadUniProtSpeciesList_try_def miss
    using parsed long
    by (simp add: ok_def Let_def setCachedData_def setItem_def UNIPROT_CACHE_TTL_def)
  have served: "fst (getCachedData
            [''uniprot_species_list'' \<mapsto>
               JsonObj \<lparr>env_value = Val (entries [(''Homo sapiens'', ''Human'')]), env_timestamp = Some 7,
                        env_ttl = Some (500 * 60 * 60 * 1000)\<rparr>]
            ''uniprot_species_list'' (7 + 499 * 60 * 60 * 1000))
     = Val (entries [(''Homo sapiens'', ''Human'')])"
    by (simp add: getCachedData_def getCachedData_try_def JSON_parse_def ttl_or_infinity_def)
  from loaded served show ?thesis by (intro conjI)
qed

section \<open>Properties of the lookup and of the module state\<close>

text \<open>
  C1. The lookup at a failing input: the map has the key \<open>Canis lupus\<close> only, and
  the name asked for is \<open>canis lupus\<close>. The exact match misses, the second
  \<open>get\<close> looks for the lower-cased name, which is no key either, and the result is
  the empty string, from \<open>getCommonName\<close> as from \<open>getCommonNames\<close> (whose
  result map has no entry).
\<close>

theorem lowercase_fallback_misses:
  "lookup_name [(''Canis lupus'', ''Gray wolf'')] ''canis lupus'' = []
   \<and> tasks (run initial [Invoke (GetCommonName ''canis lupus''),
                          Settle 0 [(''Canis lupus'', ''Gray wolf'')], Resume 0])
       = [Returned (GetCommonName ''canis lupus'') (RString [])]
   \<and> tasks (run initial [Invoke (GetCommonNames [''canis lupus'']),
                          Settle 0 [(''Canis lupus'', ''Gray wolf'')], Resume 0])
       = [Returned (GetCommonNames [''canis lupus'']) (RMap [])]"
  by code_simp

text \<open>
  The invariant holds initially and every event keeps it.
\<close>

lemma tasks_ok_iff:
  "(\<forall>t\<in>set ts. task_ok ps t) \<longleftrightarrow>
     (\<forall>c p b. Awaiting c p b \<in> set ts \<longrightarrow> p = 0) \<and>
     (\<forall>c r. Returned c r \<in> set ts \<longrightarrow>
        (c = PreloadUniProtData \<and> r = RVoid) \<or> (\<exists>m. ps = [Fulfilled m] \<and> r = answer c m)) \<and>
     (\<forall>c e. Threw c e \<in> set ts \<longrightarrow> ps = [Rejected e])"
proof
  assume all: "\<forall>t\<in>set ts. task_ok ps t"
  have "p = 0" if "Awaiting c p b \<in> set ts" for c p b
    using all that by fastforce
  moreover have "(c = PreloadUniProtData \<and> r = RVoid) \<or> (\<exists>m. ps = [Fulfilled m] \<and> r = answer c m)"
    if "Returned c r \<in> set ts" for c r
  proof -
    from all that have "task_ok ps (Returned c r)" by (rule bspec)
    then show ?thesis by simp
  qed
  moreover have "ps = [Rejected e]" if "Threw c e \<in> set ts" for c e
  proof -
    from all that have "task_ok ps (Threw c e)" by (rule bspec)
    then show ?thesis by simp
  qed
  ultimately show "(\<forall>c p b. Awaiting c p b \<in> set ts \<longrightarrow> p = 0) \<and>
     (\<forall>c r. Returned c r \<in> set ts \<longrightarrow>
        (c = PreloadUniProtData \<and> r = RVoid) \<or> (\<exists>m. ps = [Fulfilled m] \<and> r = answer c m)) \<and>
     (\<forall>c e. Threw c e \<in> set ts \<longrightarrow> ps = [Rejected e])"
    by (intro conjI allI impI)
next
  assume each: "(\<forall>c p b. Awaiting c p b \<in> set ts \<longrightarrow> p = 0) \<and>
     (\<forall>c r. Returned c r \<in> set ts \<longrightarrow>
        (c = PreloadUniProtData \<and> r = RVoid) \<or> (\<exists>m. ps = [Fulfilled m] \<and> r = answer c m)) \<and>
     (\<forall>c e. Threw c e \<in> set ts \<longrightarrow> ps = [Rejected e])"
  show "\<forall>t\<in>set ts. task_ok ps t"
  proof
    fix t assume mem: "t \<in> set ts"
    show "task_ok ps t"
    proof (cases t)
      case (Awaiting c p b)
      with mem have "Awaiting c p b \<in> set ts" by simp
      with each have "p = 0" by auto
      with Awaiting show ?thesis by simp
    next
      case (Returned c r)
      with mem each
      have "(c = PreloadUniProtData \<and> r = RVoid) \<or> (\<exists>m. ps = [Fulfilled m] \<and> r = answer c m)"
        by simp
      with Returned show ?thesis by simp
    next
      case (Threw c e)
      with mem each have "ps = [Rejected e]" by simp
      with Threw show ?thesis by simp
    qed
  qed
qed

lemma coherent_iff:
  "coherent s \<longleftrightarrow>
     length (promises s) \<le> 1 \<and>
     (promises s = [] \<longrightarrow> speciesCache s = None \<and> cachePromise s = None \<and> tasks s = []) \<and>
     (promises s \<noteq> [] \<longrightarrow> speciesCache s \<noteq> None \<or> cachePromise s = Some 0) \<and>
     (cachePromise s = None \<or> cachePromise s = Some 0) \<and>
     (\<forall>m. speciesCache s = Some m \<longrightarrow> promises s = [Fulfilled m]) \<and>
     (\<forall>t\<in>set (tasks s). task_ok (promises s) t)"
  unfolding coherent_def tasks_ok_iff[of "tasks s" "promises s"] by (rule refl)

lemma task_ok_settled: "task_ok [Pending] t \<Longrightarrow> task_ok ps t"
  by (cases t) simp_all

lemma tasks_ok_update:
  assumes "\<forall>t\<in>set ts. task_ok ps t" and "task_ok ps t'"
  shows "\<forall>t\<in>set (ts[i := t']). task_ok ps t"
proof
  fix t assume "t \<in> set (ts[i := t'])"
  with set_update_subset_insert[of ts i t'] have "t = t' \<or> t \<in> set ts" by auto
  with assms show "task_ok ps t" by auto
qed

lemma coherent_initial: "coherent initial"
  by (simp add: coherent_iff initial_def)

lemma coherent_start_loading:
  assumes "coherent s" and "speciesCache s = None" and "cachePromise s = None"
  shows "coherent (start_loading s c)"
proof -
  from assms have "promises s = []" by (auto simp: coherent_iff)
  with assms(1) have "tasks s = []" by (simp add: coherent_iff)
  with assms(2,3) \<open>promises s = []\<close> show ?thesis
    by (simp add: coherent_iff start_loading_def)
qed

lemma coherent_add_task:
  assumes "coherent s" and "promises s \<noteq> []" and "task_ok (promises s) t"
  shows "coherent (s\<lparr>tasks := tasks s @ [t]\<rparr>)"
  using assms by (simp add: coherent_iff)

lemma coherent_return:
  assumes "coherent s" and "speciesCache s = Some m"
  shows "coherent (s\<lparr>tasks := tasks s @ [Returned c (answer c m)]\<rparr>)"
proof -
  from assms have "promises s = [Fulfilled m]" by (simp add: coherent_iff)
  with assms(1) show ?thesis by (intro coherent_add_task) simp_all
qed

lemma coherent_await:
  assumes "coherent s" and "speciesCache s = None" and "cachePromise s = Some p"
  shows "coherent (s\<lparr>tasks := tasks s @ [Awaiting c p b]\<rparr>)"
proof -
  from assms have "p = 0" "promises s \<noteq> []" by (auto simp: coherent_iff)
  with assms(1) show ?thesis by (intro coherent_add_task) simp_all
qed

lemma coherent_getCommonName: "coherent s \<Longrightarrow> coherent (getCommonName s n)"
proof -
  assume coh: "coherent s"
  show ?thesis
  proof (cases "speciesCache s")
    case (Some m)
    with coherent_return[OF coh Some, of "GetCommonName n"] show ?thesis
      by (simp add: getCommonName_def)
  next
    case None
    show ?thesis
    proof (cases "cachePromise s")
      case (Some p)
      with None coherent_await[OF coh None Some, of "GetCommonName n" False] show ?thesis
        by (simp add: getCommonName_def)
    next
      case no_promise: None
      with None coherent_start_loading[OF coh None no_promise] show ?thesis
        by (simp add: getCommonName_def)
    qed
  qed
qed

lemma coherent_getCommonNames: "coherent s \<Longrightarrow> coherent (getCommonNames s ns)"
proof -
  assume coh: "coherent s"
  show ?thesis
  proof (cases "speciesCache s")
    case (Some m)
    with coherent_return[OF coh Some, of "GetCommonNames ns"] show ?thesis
      by (simp add: getCommonNames_def)
  next
    case None
    show ?thesis
    proof (cases "cachePromise s")
      case (Some p)
      with None coherent_await[OF coh None Some, of "GetCommonNames ns" False] show ?thesis
        by (simp add: getCommonNames_def)
    next
      case no_promise: None
      with None coherent_start_loading[OF coh None no_promise] show ?thesis
        by (simp add: getCommonNames_def)
    qed
  qed
qed

lemma coherent_return_void:
  assumes "coherent s" and "\<not> (speciesCache s = None \<and> cachePromise s = None)"
  shows "coherent (s\<lparr>tasks := tasks s @ [Returned PreloadUniProtData RVoid]\<rparr>)"
proof -
  from assms have "promises s \<noteq> []" by (auto simp: coherent_iff)
  with assms(1) show ?thesis by (intro coherent_add_task) simp_all
qed

lemma coherent_preloadUniProtData: "coherent s \<Longrightarrow> coherent (preloadUniProtData s)"
  using coherent_return_void[of s] coherent_start_loading[of s PreloadUniProtData]
  by (cases "speciesCache s = None \<and> cachePromise s = None")
     (simp_all add: preloadUniProtData_def)

lemma coherent_pending:
  assumes "coherent s" and "p < length (promises s)" and "promises s ! p = Pending"
  shows "promises s = [Pending] \<and> p = 0 \<and> speciesCache s = None"
proof -
  from assms(1) have short: "length (promises s) \<le> 1"
    by (simp add: coherent_iff)
  with assms(2) have p0: "p = 0" by simp
  from short assms(2) obtain x where "promises s = [x]"
    by (cases "promises s") auto
  with assms(3) p0 have one: "promises s = [Pending]" by simp
  from assms(1) have "\<forall>m. speciesCache s = Some m \<longrightarrow> promises s = [Fulfilled m]"
    by (simp add: coherent_iff)
  with one have "speciesCache s = None"
    by (cases "speciesCache s") auto
  with one p0 show ?thesis by simp
qed

lemma coherent_settle: "coherent s \<Longrightarrow> coherent (settle s p m)"
proof (cases "p < length (promises s) \<and> promises s ! p = Pending")
  case False
  assume "coherent s"
  with False show ?thesis by (auto simp: settle_def)
next
  case True
  assume coh: "coherent s"
  from True have "p < length (promises s)" and "promises s ! p = Pending"
    by simp_all
  from coherent_pending[OF coh this]
  have facts: "promises s = [Pending]" "p = 0" "speciesCache s = None"
    by simp_all
  from coh facts have "\<forall>t\<in>set (tasks s). task_ok [Pending] t"
    by (simp add: coherent_iff)
  then have "\<forall>t\<in>set (tasks s). task_ok [Fulfilled m] t"
    by (blast intro: task_ok_settled)
  with coh facts show ?thesis
    by (simp add: coherent_iff settle_def)
qed

lemma coherent_reject: "coherent s \<Longrightarrow> coherent (reject s p e)"
proof (cases "p < length (promises s) \<and> promises s ! p = Pending")
  case False
  assume "coherent s"
  with False show ?thesis by (auto simp: reject_def)
next
  case True
  assume coh: "coherent s"
  from True have "p < length (promises s)" and "promises s ! p = Pending"
    by simp_all
  from coherent_pending[OF coh this]
  have facts: "promises s = [Pending]" "p = 0" "speciesCache s = None"
    by simp_all
  from coh facts have "\<forall>t\<in>set (tasks s). task_ok [Pending] t"
    by (simp add: coherent_iff)
  then have "\<forall>t\<in>set (tasks s). task_ok [Rejected e] t"
    by (blast intro: task_ok_settled)
  with coh facts show ?thesis
    by (simp add: coherent_iff reject_def)
qed

lemma coherent_resume: "coherent s \<Longrightarrow> coherent (resume s i)"
proof -
  assume coh: "coherent s"
  show ?thesis
  proof (cases "i < length (tasks s)")
    case False
    with coh show ?thesis by (simp add: resume_def)
  next
    case inrange: True
    show ?thesis
    proof (cases "tasks s ! i")
      case (Returned c r)
      with coh inrange show ?thesis by (simp add: resume_def)
    next
      case (Threw c e)
      with coh inrange show ?thesis by (simp add: resume_def)
    next
      case (Awaiting c p b)
      with inrange have mem: "Awaiting c p b \<in> set (tasks s)"
        by (metis nth_mem)
      from coh have oks: "\<forall>t\<in>set (tasks s). task_ok (promises s) t"
        by (simp add: coherent_iff)
      from oks mem have "task_ok (promises s) (Awaiting c p b)"
        by (rule bspec)
      then have p0: "p = 0" by simp
      from inrange have busy: "tasks s \<noteq> []" by auto
      show ?thesis
      proof (cases "p < length (promises s)")
        case False
        with coh inrange Awaiting show ?thesis by (simp add: resume_def)
      next
        case True
        with p0 coh obtain x where px: "promises s = [x]"
          by (cases "promises s") (auto simp: coherent_iff)
        show ?thesis
        proof (cases x)
          case Pending
          with coh inrange Awaiting px p0 show ?thesis by (simp add: resume_def)
        next
          case (Fulfilled m)
          have res: "resume s i = s\<lparr>speciesCache := Some m,
                      cachePromise := (if b then None else cachePromise s),
                      tasks := (tasks s)[i := Returned c (answer c m)]\<rparr>"
            using inrange Awaiting px p0 Fulfilled by (simp add: resume_def)
          have "task_ok (promises s) (Returned c (answer c m))"
            using px Fulfilled by simp
          with oks have "\<forall>t\<in>set ((tasks s)[i := Returned c (answer c m)]). task_ok (promises s) t"
            by (rule tasks_ok_update)
          with coh px Fulfilled busy show ?thesis
            unfolding res by (simp add: coherent_iff)
        next
          case (Rejected e)
          have res: "resume s i = s\<lparr>tasks := (tasks s)[i := Threw c e]\<rparr>"
            using inrange Awaiting px p0 Rejected by (simp add: resume_def)
          have "task_ok (promises s) (Threw c e)"
            using px Rejected by simp
          with oks have "\<forall>t\<in>set ((tasks s)[i := Threw c e]). task_ok (promises s) t"
            by (rule tasks_ok_update)
          with coh px Rejected busy show ?thesis
            unfolding res by (auto simp: coherent_iff)
        qed
      qed
    qed
  qed
qed

lemma coherent_step: "coherent s \<Longrightarrow> coherent (step s e)"
proof (cases e)
  case (Invoke c)
  assume "coherent s"
  with Invoke show ?thesis
    by (cases c) (simp_all add: coherent_getCommonName coherent_getCommonNames
        coherent_preloadUniProtData)
qed (simp_all add: coherent_settle coherent_reject coherent_resume)

lemma coherent_run: "coherent s \<Longrightarrow> coherent (run s evs)"
  unfolding run_def by (induction evs arbitrary: s) (simp_all add: coherent_step)

lemma step_keeps_promises: "promises s \<noteq> [] \<Longrightarrow> promises (step s e) \<noteq> []"
proof (cases e)
  case (Invoke c)
  assume "promises s \<noteq> []"
  with Invoke show ?thesis
    by (cases c)
       (auto simp: getCommonName_def getCommonNames_def preloadUniProtData_def
          start_loading_def Let_def split: option.splits)
next
  case (Settle p m)
  assume "promises s \<noteq> []"
  with Settle show ?thesis by (auto simp: settle_def)
next
  case (Reject p err)
  assume "promises s \<noteq> []"
  with Reject show ?thesis by (auto simp: reject_def)
next
  case (Resume i)
  assume "promises s \<noteq> []"
  with Resume show ?thesis
    by (auto simp: resume_def split: task.splits promise.splits)
qed

lemma coherent_short: "coherent s \<Longrightarrow> length (promises s) \<le> 1"
  by (simp add: coherent_iff)

lemma coherent_unloaded:
  "coherent s \<Longrightarrow> promises s = [] \<Longrightarrow> speciesCache s = None \<and> cachePromise s = None"
  by (simp add: coherent_iff)

lemma coherent_loading:
  "coherent s \<Longrightarrow> promises s \<noteq> [] \<Longrightarrow> speciesCache s = None \<Longrightarrow> cachePromise s = Some 0"
  by (simp add: coherent_iff)

lemma coherent_cache: "coherent s \<Longrightarrow> speciesCache s = Some m \<Longrightarrow> promises s = [Fulfilled m]"
  by (simp add: coherent_iff)

lemma coherent_task: "coherent s \<Longrightarrow> t \<in> set (tasks s) \<Longrightarrow> task_ok (promises s) t"
  by (simp add: coherent_iff)

lemma step_invoke_loads: "coherent s \<Longrightarrow> promises (step s (Invoke c)) \<noteq> []"
proof (cases "promises s = []")
  case False
  then show ?thesis by (rule step_keeps_promises)
next
  case True
  assume "coherent s"
  from coherent_unloaded[OF this True]
  have "speciesCache s = None" "cachePromise s = None"
    by simp_all
  then show ?thesis
    by (cases c)
       (simp_all add: getCommonName_def getCommonNames_def preloadUniProtData_def
          start_loading_def Let_def)
qed

lemma step_idle: "promises s = [] \<Longrightarrow> calls [e] = [] \<Longrightarrow> promises (step s e) = []"
  by (cases e) (auto simp: settle_def reject_def resume_def split: task.splits)

lemma run_Cons: "run s (e # evs) = run (step s e) evs"
  by (simp add: run_def)

lemma run_snoc: "run s (evs @ [e]) = step (run s evs) e"
  by (simp add: run_def)

lemma run_keeps_promises: "promises s \<noteq> [] \<Longrightarrow> promises (run s evs) \<noteq> []"
  by (induction evs arbitrary: s) (simp_all add: run_def step_keeps_promises)

lemma run_loads:
  "coherent s \<Longrightarrow> promises (run s evs) = [] \<longleftrightarrow> promises s = [] \<and> calls evs = []"
proof (induction evs arbitrary: s)
  case Nil
  show ?case by (simp add: run_def)
next
  case (Cons e evs)
  show ?case
  proof (cases "\<exists>c. e = Invoke c")
    case True
    then obtain c where "e = Invoke c" ..
    with Cons.prems have "promises (run s (e # evs)) \<noteq> []"
      by (simp add: run_Cons run_keeps_promises step_invoke_loads)
    with \<open>e = Invoke c\<close> show ?thesis by simp
  next
    case False
    then have idle: "calls [e] = []" and same: "calls (e # evs) = calls evs"
      by (cases e; simp)+
    show ?thesis
    proof (cases "promises s = []")
      case True
      with idle step_idle[of s e] have "promises (step s e) = []" by simp
      with Cons.IH[OF coherent_step[OF Cons.prems], of e] same True show ?thesis
        by (simp add: run_Cons)
    next
      case False
      then show ?thesis by (simp add: run_keeps_promises)
    qed
  qed
qed

lemma step_calls: "map call_of (tasks (step s e)) = map call_of (tasks s) @ calls [e]"
proof (cases e)
  case (Invoke c)
  then show ?thesis
    by (cases c)
       (auto simp: getCommonName_def getCommonNames_def preloadUniProtData_def
          start_loading_def Let_def split: option.splits)
next
  case (Settle p m)
  then show ?thesis by (simp add: settle_def)
next
  case (Reject p err)
  then show ?thesis by (simp add: reject_def)
next
  case (Resume i)
  have "map call_of ((tasks s)[i := t]) = map call_of (tasks s)"
    if "i < length (tasks s)" "tasks s ! i = Awaiting c p b" "call_of t = c" for c t p b
    using that by (simp add: map_update list_update_same_conv)
  with Resume show ?thesis
    by (auto simp: resume_def split: task.splits promise.splits)
qed

lemma calls_append: "calls (xs @ ys) = calls xs @ calls ys"
  by (induction xs rule: calls.induct) simp_all

lemma run_calls: "map call_of (tasks (run s evs)) = map call_of (tasks s) @ calls evs"
proof (induction evs arbitrary: s)
  case Nil
  show ?case by (simp add: run_def)
next
  case (Cons e evs)
  have "calls (e # evs) = calls [e] @ calls evs"
    using calls_append[of "[e]" evs] by simp
  with Cons[of "step s e"] show ?case
    by (simp add: run_Cons step_calls)
qed

lemma coherent_returned:
  assumes "coherent s" and "Returned c r \<in> set (tasks s)"
  shows "(c = PreloadUniProtData \<and> r = RVoid) \<or>
     (\<exists>m. promises s = [Fulfilled m] \<and> r = answer c m)"
  using coherent_task[OF assms] by simp

lemma coherent_awaiting:
  assumes "coherent s" and "Awaiting c p b \<in> set (tasks s)"
  shows "p = 0"
  using coherent_task[OF assms] by simp

lemma coherent_threw:
  assumes "coherent s" and "Threw c e \<in> set (tasks s)"
  shows "promises s = [Rejected e]"
  using coherent_task[OF assms] by simp

lemma coherent_same_map:
  assumes "coherent s"
  shows "\<exists>m. (\<forall>m'. Fulfilled m' \<in> set (promises s) \<longrightarrow> m' = m) \<and>
             (speciesCache s = None \<or> speciesCache s = Some m) \<and>
             (\<forall>c r. Returned c r \<in> set (tasks s) \<longrightarrow> r = answer c m)"
proof (cases "\<exists>m. promises s = [Fulfilled m]")
  case True
  then obtain m where m: "promises s = [Fulfilled m]" ..
  have "r = answer c m" if "Returned c r \<in> set (tasks s)" for c r
    using coherent_returned[OF assms that] m by auto
  then have returned: "\<forall>c r. Returned c r \<in> set (tasks s) \<longrightarrow> r = answer c m"
    by (intro allI impI)
  have cache: "speciesCache s = None \<or> speciesCache s = Some m"
  proof (cases "speciesCache s")
    case None
    then show ?thesis by simp
  next
    case (Some m')
    from coherent_cache[OF assms Some] m have "m' = m" by simp
    with Some show ?thesis by simp
  qed
  from m have only: "\<forall>m'. Fulfilled m' \<in> set (promises s) \<longrightarrow> m' = m"
    by simp
  from only cache returned
  have "(\<forall>m'. Fulfilled m' \<in> set (promises s) \<longrightarrow> m' = m) \<and>
             (speciesCache s = None \<or> speciesCache s = Some m) \<and>
             (\<forall>c r. Returned c r \<in> set (tasks s) \<longrightarrow> r = answer c m)"
    by (intro conjI)
  then show ?thesis ..
next
  case False
  from coherent_short[OF assms] False have none: "\<forall>m'. Fulfilled m' \<notin> set (promises s)"
    by (cases "promises s") auto
  have cache: "speciesCache s = None"
  proof (cases "speciesCache s")
    case None
    then show ?thesis .
  next
    case (Some m')
    from coherent_cache[OF assms Some] False show ?thesis by simp
  qed
  have "r = answer c []" if "Returned c r \<in> set (tasks s)" for c r
    using coherent_returned[OF assms that] False by auto
  then have returned: "\<forall>c r. Returned c r \<in> set (tasks s) \<longrightarrow> r = answer c []"
    by (intro allI impI)
  from none have only: "\<forall>m'. Fulfilled m' \<in> set (promises s) \<longrightarrow> m' = []"
    by simp
  from cache have cache': "speciesCache s = None \<or> speciesCache s = Some []"
    by simp
  from only cache' returned
  have "(\<forall>m'. Fulfilled m' \<in> set (promises s) \<longrightarrow> m' = []) \<and>
             (speciesCache s = None \<or> speciesCache s = Some []) \<and>
             (\<forall>c r. Returned c r \<in> set (tasks s) \<longrightarrow> r = answer c [])"
    by (intro conjI)
  then show ?thesis ..
qed

lemma coherent_resumes:
  assumes "coherent s" and "promises s = [Fulfilled m]" and "i < length (tasks s)"
    and "tasks s ! i = Awaiting c p b"
  shows "tasks (resume s i) ! i = Returned c (answer c m)"
proof -
  from assms(3,4) have "Awaiting c p b \<in> set (tasks s)" by (metis nth_mem)
  with assms(1) have "p = 0" by (rule coherent_awaiting)
  with assms(2,3,4) show ?thesis by (simp add: resume_def)
qed

lemma coherent_later_call:
  assumes "coherent s" and "promises s \<noteq> []" and "speciesCache s = None"
  shows "tasks (step s (Invoke c)) =
     tasks s @ [if c = PreloadUniProtData then Returned c RVoid else Awaiting c 0 False]"
proof -
  from assms have "cachePromise s = Some 0" by (rule coherent_loading)
  with assms(3) show ?thesis
    by (cases c) (simp_all add: getCommonName_def getCommonNames_def preloadUniProtData_def)
qed

lemma rejected_load_reaches_every_caller:
  "tasks (run initial
      [Invoke (GetCommonName ''Canis lupus''), Invoke (GetCommonNames [''Canis lupus'']),
       Reject 0 (PlatformError ''TypeError''), Resume 0, Resume 1,
       Invoke (GetCommonName ''Felis catus''), Resume 2])
     = [Threw (GetCommonName ''Canis lupus'') (PlatformError ''TypeError''),
        Threw (GetCommonNames [''Canis lupus'']) (PlatformError ''TypeError''),
        Threw (GetCommonName ''Felis catus'') (PlatformError ''TypeError'')]
   \<and> promises (run initial
      [Invoke (GetCommonName ''Canis lupus''), Invoke (GetCommonNames [''Canis lupus'']),
       Reject 0 (PlatformError ''TypeError''), Resume 0, Resume 1,
       Invoke (GetCommonName ''Felis catus''), Resume 2])
     = [Rejected (PlatformError ''TypeError'')]
   \<and> cachePromise (run initial
      [Invoke (GetCommonName ''Canis lupus''), Invoke (GetCommonNames [''Canis lupus'']),
       Reject 0 (PlatformError ''TypeError''), Resume 0, Resume 1,
       Invoke (GetCommonName ''Felis catus''), Resume 2])
     = Some 0"
  by code_simp

text \<open>
  C9, as amended. In every run from the initial module state, whatever calls are made,
  however the loader's promise is settled (fulfilled with a map, or rejected) and in
  whatever order the calls are resumed: the loader is called once if any call was made
  and not at all otherwise; every call made is a task, in order; the first call leaves
  the loader's promise in \<open>cachePromise\<close> and is suspended on it; a later call made
  while no map is stored is suspended on that same promise when it is a
  \<open>getCommonName\<close> or a \<open>getCommonNames\<close>, and returns at once, awaiting
  nothing, when it is a \<open>preloadUniProtData\<close>; every suspended call awaits that one
  promise; there is one map that a fulfilled promise holds, that \<open>speciesCache\<close>
  holds if it holds any, and from which every call that returned computed its result; a
  suspended call, resumed after the promise is fulfilled with a map, returns its answer
  from that map; and a call throws only the error the promise was rejected with.
\<close>

theorem single_flight:
  "length (promises (run initial evs)) = (if calls evs = [] then 0 else 1)
   \<and> map call_of (tasks (run initial evs)) = calls evs
   \<and> (\<forall>c. cachePromise (run initial [Invoke c]) = Some 0 \<and>
           promises (run initial [Invoke c]) = [Pending] \<and>
           tasks (run initial [Invoke c]) = [Awaiting c 0 True])
   \<and> (\<forall>c. calls evs \<noteq> [] \<and> speciesCache (run initial evs) = None \<longrightarrow>
           tasks (run initial (evs @ [Invoke c])) =
             tasks (run initial evs) @
               [if c = PreloadUniProtData then Returned c RVoid else Awaiting c 0 False])
   \<and> (\<forall>c p b. Awaiting c p b \<in> set (tasks (run initial evs)) \<longrightarrow> p = 0)
   \<and> (\<exists>m. (\<forall>m'. Fulfilled m' \<in> set (promises (run initial evs)) \<longrightarrow> m' = m) \<and>
           (speciesCache (run initial evs) = None \<or> speciesCache (run initial evs) = Some m) \<and>
           (\<forall>c r. Returned c r \<in> set (tasks (run initial evs)) \<longrightarrow> r = answer c m))
   \<and> (\<forall>m i c p b. promises (run initial evs) = [Fulfilled m] \<and>
           i < length (tasks (run initial evs)) \<and>
           tasks (run initial evs) ! i = Awaiting c p b \<longrightarrow>
           tasks (run initial (evs @ [Resume i])) ! i = Returned c (answer c m))
   \<and> (\<forall>c e. Threw c e \<in> set (tasks (run initial evs)) \<longrightarrow>
           promises (run initial evs) = [Rejected e])"
proof -
  have coh: "coherent (run initial evs)"
    by (simp add: coherent_run coherent_initial)
  have loads: "promises (run initial evs) = [] \<longleftrightarrow> calls evs = []"
    using run_loads[OF coherent_initial, of evs] by (simp add: initial_def)
  with coherent_short[OF coh]
  have one: "length (promises (run initial evs)) = (if calls evs = [] then 0 else 1)"
    by (cases "promises (run initial evs)") auto
  have all_calls: "map call_of (tasks (run initial evs)) = calls evs"
    using run_calls[of initial evs] by (simp add: initial_def)
  have "cachePromise (run initial [Invoke c]) = Some 0 \<and>
           promises (run initial [Invoke c]) = [Pending] \<and>
           tasks (run initial [Invoke c]) = [Awaiting c 0 True]" for c
    by (cases c)
       (simp_all add: run_def initial_def getCommonName_def getCommonNames_def
          preloadUniProtData_def start_loading_def)
  then have first: "\<forall>c. cachePromise (run initial [Invoke c]) = Some 0 \<and>
           promises (run initial [Invoke c]) = [Pending] \<and>
           tasks (run initial [Invoke c]) = [Awaiting c 0 True]"
    by (rule allI)
  have "tasks (run initial (evs @ [Invoke c])) =
             tasks (run initial evs) @
               [if c = PreloadUniProtData then Returned c RVoid else Awaiting c 0 False]"
    if "calls evs \<noteq> [] \<and> speciesCache (run initial evs) = None" for c
  proof -
    from that loads have "promises (run initial evs) \<noteq> []" by simp
    moreover from that have "speciesCache (run initial evs) = None" by simp
    ultimately show ?thesis
      unfolding run_snoc by (rule coherent_later_call[OF coh])
  qed
  then have later: "\<forall>c. calls evs \<noteq> [] \<and> speciesCache (run initial evs) = None \<longrightarrow>
           tasks (run initial (evs @ [Invoke c])) =
             tasks (run initial evs) @
               [if c = PreloadUniProtData then Returned c RVoid else Awaiting c 0 False]"
    by (intro allI impI)
  have "p = 0" if "Awaiting c p b \<in> set (tasks (run initial evs))" for c p b
    using coh that by (rule coherent_awaiting)
  then have awaiting: "\<forall>c p b. Awaiting c p b \<in> set (tasks (run initial evs)) \<longrightarrow> p = 0"
    by (intro allI impI)
  note same = coherent_same_map[OF coh]
  have "tasks (run initial (evs @ [Resume i])) ! i = Returned c (answer c m)"
    if "promises (run initial evs) = [Fulfilled m] \<and> i < length (tasks (run initial evs)) \<and>
           tasks (run initial evs) ! i = Awaiting c p b" for m i c p b
  proof -
    from that have "promises (run initial evs) = [Fulfilled m]"
      and "i < length (tasks (run initial evs))"
      and "tasks (run initial evs) ! i = Awaiting c p b"
      by simp_all
    then show ?thesis
      unfolding run_snoc step.simps by (rule coherent_resumes[OF coh])
  qed
  then have resumes: "\<forall>m i c p b. promises (run initial evs) = [Fulfilled m] \<and>
           i < length (tasks (run initial evs)) \<and>
           tasks (run initial evs) ! i = Awaiting c p b \<longrightarrow>
           tasks (run initial (evs @ [Resume i])) ! i = Returned c (answer c m)"
    by (intro allI impI)
  have "promises (run initial evs) = [Rejected e]"
    if "Threw c e \<in> set (tasks (run initial evs))" for c e
    using coh that by (rule coherent_threw)
  then have threw: "\<forall>c e. Threw c e \<in> set (tasks (run initial evs)) \<longrightarrow>
           promises (run initial evs) = [Rejected e]"
    by (intro allI impI)
  from one all_calls first later awaiting same resumes threw
  show ?thesis by (intro conjI)
qed

theorem single_flight_witness:
  "length (promises (run initial
      [Invoke (GetCommonName ''Canis lupus''), Invoke (GetCommonNames [''Canis lupus'']),
       Invoke PreloadUniProtData, Settle 0 [(''Canis lupus'', ''Gray wolf'')]])) = 1
   \<and> tasks (run initial
      [Invoke (GetCommonName ''Canis lupus''), Invoke (GetCommonNames [''Canis lupus'']),
       Invoke PreloadUniProtData, Settle 0 [(''Canis lupus'', ''Gray wolf'')]])
     = [Awaiting (GetCommonName ''Canis lupus'') 0 True,
        Awaiting (GetCommonNames [''Canis lupus'']) 0 False,
        Returned PreloadUniProtData RVoid]
   \<and> tasks (run initial
      ([Invoke (GetCommonName ''Canis lupus''), Invoke (GetCommonNames [''Canis lupus'']),
        Invoke PreloadUniProtData, Settle 0 [(''Canis lupus'', ''Gray wolf'')]] @ [Resume 1])) ! 1
     = Returned (GetCommonNames [''Canis lupus'']) (RMap [(''Canis lupus'', ''Gray wolf'')])
   \<and> tasks (run initial
      ([Invoke (GetCommonName ''Canis lupus'')] @ [Invoke (GetCommonNames [''Canis lupus''])]))
     = tasks (run initial [Invoke (GetCommonName ''Canis lupus'')]) @
       [Awaiting (GetCommonNames [''Canis lupus'']) 0 False]
   \<and> Threw (GetCommonName ''Canis lupus'') (PlatformError ''TypeError'')
       \<in> set (tasks (run initial
            [Invoke (GetCommonName ''Canis lupus''), Reject 0 (PlatformError ''TypeError''),
             Resume 0]))
   \<and> promises (run initial
        [Invoke (GetCommonName ''Canis lupus''), Reject 0 (PlatformError ''TypeError''),
         Resume 0])
     = [Rejected (PlatformError ''TypeError'')]"
proof -
  let ?m = "[(''Canis lupus'', ''Gray wolf'')]"
  let ?evs = "[Invoke (GetCommonName ''Canis lupus''), Invoke (GetCommonNames [''Canis lupus'']),
       Invoke PreloadUniProtData, Settle 0 ?m]"
  note sf = single_flight[of ?evs]
  have called: "calls ?evs \<noteq> []"
    by simp
  from sf[THEN conjunct1] called have one: "length (promises (run initial ?evs)) = 1"
    by simp
  have suspended: "tasks (run initial ?evs)
     = [Awaiting (GetCommonName ''Canis lupus'') 0 True,
        Awaiting (GetCommonNames [''Canis lupus'']) 0 False,
        Returned PreloadUniProtData RVoid]"
    by code_simp
  have fulfilled: "promises (run initial ?evs) = [Fulfilled ?m]"
    by code_simp
  have pre: "promises (run initial ?evs) = [Fulfilled ?m] \<and>
      1 < length (tasks (run initial ?evs)) \<and>
      tasks (run initial ?evs) ! 1 = Awaiting (GetCommonNames [''Canis lupus'']) 0 False"
    using fulfilled suspended by simp
  have answered: "answer (GetCommonNames [''Canis lupus'']) ?m = RMap ?m"
    by code_simp
  from sf[THEN conjunct2, THEN conjunct2, THEN conjunct2, THEN conjunct2, THEN conjunct2,
      THEN conjunct2, THEN conjunct1, rule_format, OF pre]
  have resumed: "tasks (run initial (?evs @ [Resume 1])) ! 1
     = Returned (GetCommonNames [''Canis lupus'']) (RMap ?m)"
    using answered by simp
  have unloaded: "calls [Invoke (GetCommonName ''Canis lupus'')] \<noteq> [] \<and>
      speciesCache (run initial [Invoke (GetCommonName ''Canis lupus'')]) = None"
    by code_simp
  from single_flight[of "[Invoke (GetCommonName ''Canis lupus'')]", THEN conjunct2,
      THEN conjunct2, THEN conjunct2, THEN conjunct1, rule_format, OF unloaded,
      of "GetCommonNames [''Canis lupus'']"]
  have second: "tasks (run initial
      ([Invoke (GetCommonName ''Canis lupus'')] @ [Invoke (GetCommonNames [''Canis lupus''])]))
     = tasks (run initial [Invoke (GetCommonName ''Canis lupus'')]) @
       [Awaiting (GetCommonNames [''Canis lupus'']) 0 False]"
    by simp
  let ?rej = "[Invoke (GetCommonName ''Canis lupus''), Reject 0 (PlatformError ''TypeError''),
       Resume 0]"
  have thrown: "Threw (GetCommonName ''Canis lupus'') (PlatformError ''TypeError'')
       \<in> set (tasks (run initial ?rej))"
    by code_simp
  from single_flight[of ?rej, THEN conjunct2, THEN conjunct2, THEN conjunct2, THEN conjunct2,
      THEN conjunct2, THEN conjunct2, THEN conjunct2, rule_format, OF thrown]
  have rejected: "promises (run initial ?rej) = [Rejected (PlatformError ''TypeError'')]" .
  from one suspended resumed second thrown rejected show ?thesis by (intro conjI)
qed

text \<open>
  C9 as stated fails for a \<open>preloadUniProtData\<close> that is not the first call: it is
  made while the promise of the first call is pending and no map is stored, and it
  returns at once, having awaited nothing.
\<close>

theorem preload_does_not_await_counterexample:
  "tasks (run initial [Invoke (GetCommonName ''Canis lupus''), Invoke PreloadUniProtData])
     = [Awaiting (GetCommonName ''Canis lupus'') 0 True, Returned PreloadUniProtData RVoid]
   \<and> promises (run initial [Invoke (GetCommonName ''Canis lupus''), Invoke PreloadUniProtData])
     = [Pending]
   \<and> speciesCache (run initial [Invoke (GetCommonName ''Canis lupus''), Invoke PreloadUniProtData])
     = None"
  by code_simp

end
